theory Spec2Isabelle
  imports Main "HOL-Library.Word" "HOL-Library.Sublist" "HOL-Library.Multiset"
begin

unbundle bit_operations_syntax

section \<open>Bytes, typed arrays and data views\<close>

text \<open>
  A \<open>Uint8Array\<close> is a list of bytes; the 32-bit fields of a UF2 block are \<open>32 word\<close>.
  Every exception of the source is a value of \<open>error\<close>: the five \<open>throw new Error\<close>
  sites of the UF2 code, and the \<open>RangeError\<close> that \<open>DataView\<close> accessors and
  \<open>TypedArray.prototype.set\<close> raise on an access outside the array.
\<close>

type_synonym byte = "8 word"
type_synonym u32 = "32 word"

datatype error =
    LengthNotMultipleOf512
  | BadMagic nat
  | InvalidPayloadSize u32
  | ScriptTooLarge nat nat
  | PayloadNot256
  | Expected16KImage
  | RangeError

definition andThen :: "error + 'a \<Rightarrow> ('a \<Rightarrow> error + 'b) \<Rightarrow> error + 'b" where
  "andThen m f = (case m of Inl e \<Rightarrow> Inl e | Inr x \<Rightarrow> f x)"

text \<open>Little-endian packing of a 32-bit word, as \<open>DataView\<close> does with \<open>littleEndian = true\<close>.\<close>

definition u32_bytes :: "u32 \<Rightarrow> byte list" where
  "u32_bytes w = [ucast w, ucast (drop_bit 8 w), ucast (drop_bit 16 w), ucast (drop_bit 24 w)]"

definition le32 :: "byte \<Rightarrow> byte \<Rightarrow> byte \<Rightarrow> byte \<Rightarrow> u32" where
  "le32 b0 b1 b2 b3 =
     ucast b0 OR push_bit 8 (ucast b1) OR push_bit 16 (ucast b2) OR push_bit 24 (ucast b3)"

text \<open>\<open>dv.getUint32(off, true)\<close>: \<open>RangeError\<close> when the four bytes do not lie in the view.\<close>

definition u32_at :: "byte list \<Rightarrow> nat \<Rightarrow> u32" where
  "u32_at bs off = le32 (bs ! off) (bs ! (off + 1)) (bs ! (off + 2)) (bs ! (off + 3))"

definition getUint32 :: "byte list \<Rightarrow> nat \<Rightarrow> error + u32" where
  "getUint32 bs off = (if off + 4 \<le> length bs then Inr (u32_at bs off) else Inl RangeError)"

text \<open>
  \<open>target.set(source, off)\<close>: copies \<open>source\<close> over \<open>target\<close> from index \<open>off\<close>;
  \<open>RangeError\<close> when the source does not fit.
\<close>

definition overwrite :: "byte list \<Rightarrow> nat \<Rightarrow> byte list \<Rightarrow> byte list" where
  "overwrite target off source = take off target @ source @ drop (off + length source) target"

definition set_array :: "byte list \<Rightarrow> byte list \<Rightarrow> nat \<Rightarrow> error + byte list" where
  "set_array target source off =
     (if off + length source \<le> length target then Inr (overwrite target off source)
      else Inl RangeError)"

text \<open>\<open>dv.setUint32(off, w, true)\<close>.\<close>

definition setUint32 :: "byte list \<Rightarrow> nat \<Rightarrow> u32 \<Rightarrow> error + byte list" where
  "setUint32 bs off w =
     (if off + 4 \<le> length bs then Inr (overwrite bs off (u32_bytes w)) else Inl RangeError)"

text \<open>
  \<open>a.slice(start, end)\<close> for non-negative \<open>start \<le> end\<close>, the only way the source calls it:
  both ends are clamped to the length of the array.
\<close>

definition slice :: "'a list \<Rightarrow> nat \<Rightarrow> nat \<Rightarrow> 'a list" where
  "slice xs start end = take (end - start) (drop start xs)"

section \<open>Parsing a UF2 container\<close>

record Uf2Block =
  magicStart0 :: u32
  magicStart1 :: u32
  flags :: u32
  targetAddr :: u32
  payloadSize :: u32
  blockNo :: u32
  numBlocks :: u32
  familyId :: u32
  payload :: "byte list"

text \<open>The body of the loop of \<open>parseUf2\<close>, for the block at offset \<open>off\<close>.\<close>

definition parseBlockAt :: "byte list \<Rightarrow> nat \<Rightarrow> error + Uf2Block" where
  "parseBlockAt fileBytes off =
     andThen (getUint32 fileBytes (off + 0)) (\<lambda>magic0.
     andThen (getUint32 fileBytes (off + 4)) (\<lambda>magic1.
     andThen (getUint32 fileBytes (off + 512 - 4)) (\<lambda>magicEnd.
     if magic0 \<noteq> 0x0a324655 \<or> magic1 \<noteq> 0x9e5d5157 \<or> magicEnd \<noteq> 0x0ab16f30
     then Inl (BadMagic off)
     else
     andThen (getUint32 fileBytes (off + 8)) (\<lambda>flags.
     andThen (getUint32 fileBytes (off + 12)) (\<lambda>targetAddr.
     andThen (getUint32 fileBytes (off + 16)) (\<lambda>payloadSize.
     andThen (getUint32 fileBytes (off + 20)) (\<lambda>blockNo.
     andThen (getUint32 fileBytes (off + 24)) (\<lambda>numBlocks.
     andThen (getUint32 fileBytes (off + 28)) (\<lambda>familyId.
     if payloadSize > 476 then Inl (InvalidPayloadSize payloadSize)
     else Inr \<lparr> magicStart0 = magic0, magicStart1 = magic1, flags = flags,
                targetAddr = targetAddr, payloadSize = payloadSize, blockNo = blockNo,
                numBlocks = numBlocks, familyId = familyId,
                payload = slice fileBytes (off + 32) (off + 32 + unat payloadSize) \<rparr>)))))))))"

text \<open>The loop \<open>for (let off = 0; off < fileBytes.length; off += 512)\<close>, pushing onto \<open>blocks\<close>.\<close>

function parseLoop :: "byte list \<Rightarrow> nat \<Rightarrow> Uf2Block list \<Rightarrow> error + Uf2Block list" where
  "parseLoop fileBytes off blocks =
     (if off < length fileBytes
      then (case parseBlockAt fileBytes off of
              Inl e \<Rightarrow> Inl e
            | Inr b \<Rightarrow> parseLoop fileBytes (off + 512) (blocks @ [b]))
      else Inr blocks)"
  by pat_completeness auto
termination
  by (relation "measure (\<lambda>(fileBytes, off, blocks). length fileBytes - off)") auto

declare parseLoop.simps [simp del]

definition parseUf2 :: "byte list \<Rightarrow> error + Uf2Block list" where
  "parseUf2 fileBytes =
     (if length fileBytes mod 512 \<noteq> 0 then Inl LengthNotMultipleOf512
      else parseLoop fileBytes 0 [])"

section \<open>Strings and their UTF-8 encoding\<close>

text \<open>
  A JavaScript string is a sequence of UTF-16 code units. \<open>new TextEncoder().encode\<close> is
  the platform's encoder: surrogate pairs are combined into one code point, an unpaired
  surrogate becomes U+FFFD, and every code point is written in one to four bytes.
\<close>

type_synonym jsstring = "16 word list"

definition is_high_surrogate :: "16 word \<Rightarrow> bool" where
  "is_high_surrogate u = (0xD800 \<le> u \<and> u \<le> 0xDBFF)"

definition is_low_surrogate :: "16 word \<Rightarrow> bool" where
  "is_low_surrogate u = (0xDC00 \<le> u \<and> u \<le> 0xDFFF)"

definition scalar_of_unit :: "16 word \<Rightarrow> nat" where
  "scalar_of_unit u = (if is_high_surrogate u \<or> is_low_surrogate u then 0xFFFD else unat u)"

fun code_points :: "jsstring \<Rightarrow> nat list" where
  "code_points [] = []"
| "code_points [u] = [scalar_of_unit u]"
| "code_points (u # v # rest) =
     (if is_high_surrogate u \<and> is_low_surrogate v
      then (0x10000 + (unat u - 0xD800) * 0x400 + (unat v - 0xDC00)) # code_points rest
      else scalar_of_unit u # code_points (v # rest))"

definition utf8_of_code_point :: "nat \<Rightarrow> byte list" where
  "utf8_of_code_point cp =
     (if cp < 0x80 then [of_nat cp]
      else if cp < 0x800 then [of_nat (0xC0 + cp div 0x40), of_nat (0x80 + cp mod 0x40)]
      else if cp < 0x10000 then
        [of_nat (0xE0 + cp div 0x1000), of_nat (0x80 + cp div 0x40 mod 0x40),
         of_nat (0x80 + cp mod 0x40)]
      else
        [of_nat (0xF0 + cp div 0x40000), of_nat (0x80 + cp div 0x1000 mod 0x40),
         of_nat (0x80 + cp div 0x40 mod 0x40), of_nat (0x80 + cp mod 0x40)])"

definition TextEncoder_encode :: "jsstring \<Rightarrow> byte list" where
  "TextEncoder_encode s = concat (map utf8_of_code_point (code_points s))"

text \<open>
  \<open>scriptText.split(/\r?\n/, 1)[0]\<close>: the text before the first line break, which is a
  line feed or a carriage return followed by a line feed. The split of any string by this
  pattern has a first element, so the \<open>?? ""\<close> of the source never takes effect.
\<close>

fun firstLine :: "jsstring \<Rightarrow> jsstring" where
  "firstLine [] = []"
| "firstLine [c] = (if c = 0x0A then [] else [c])"
| "firstLine (c # d # rest) =
     (if c = 0x0A then []
      else if c = 0x0D \<and> d = 0x0A then []
      else c # firstLine (d # rest))"

text \<open>The white space and line terminators that \<open>String.prototype.trim\<close> removes.\<close>

definition is_js_space :: "16 word \<Rightarrow> bool" where
  "is_js_space c =
     (c \<in> {0x09, 0x0A, 0x0B, 0x0C, 0x0D, 0x20, 0xA0, 0x1680, 0x2028, 0x2029, 0x202F, 0x205F,
            0x3000, 0xFEFF}
      \<or> (0x2000 \<le> c \<and> c \<le> 0x200A))"

definition trim :: "jsstring \<Rightarrow> jsstring" where
  "trim s = rev (dropWhile is_js_space (rev (dropWhile is_js_space s)))"

definition deriveScriptName :: "jsstring \<Rightarrow> jsstring" where
  "deriveScriptName scriptText =
     (let firstLine = firstLine scriptText
      in if take 3 firstLine \<noteq> [0x2D, 0x2D, 0x2D] then [] else trim (drop 3 firstLine))"

section \<open>Building the user-script flash image\<close>

definition USER_FLASH_START :: nat where "USER_FLASH_START = 0x101fc000"
definition USER_FLASH_SIZE :: nat where "USER_FLASH_SIZE = 16 * 1024"
definition USER_BLOCK_SIZE :: nat where "USER_BLOCK_SIZE = 256"
definition MAX_SCRIPT_LEN :: nat where "MAX_SCRIPT_LEN = USER_FLASH_SIZE - 4 - 32"

text \<open>
  The bitwise operators of JavaScript work on the 32-bit value of their operands and
  \<open>>>> 0\<close> reads the result as unsigned, so the status word is computed on \<open>32 word\<close>.
  \<open>versionWord\<close> has the default \<open>0x040\<close> in the source; the only caller uses it.
  An indexed store \<open>image[i] = v\<close> outside the array is ignored, as \<open>list_update\<close> is.
\<close>

definition buildUserFlashImage :: "byte list \<Rightarrow> jsstring \<Rightarrow> u32 \<Rightarrow> error + byte list" where
  "buildUserFlashImage scriptUtf8 name versionWord =
     (if length scriptUtf8 > MAX_SCRIPT_LEN
      then Inl (ScriptTooLarge (length scriptUtf8) MAX_SCRIPT_LEN)
      else
        let image = replicate USER_FLASH_SIZE 0xff;
            statusWord = 0x0a OR push_bit 4 (versionWord AND 0x0fff)
                              OR push_bit 16 (of_nat (length scriptUtf8) AND 0xffff)
        in andThen (setUint32 image 0 statusWord) (\<lambda>image.
             let nameBytes = TextEncoder_encode name;
                 n = min (length nameBytes) 31
             in andThen (set_array image (slice nameBytes 0 n) 4) (\<lambda>image.
                  let image = image[4 + n := 0x00]
                  in set_array image scriptUtf8 (4 + 32))))"

section \<open>UF2 blocks for the script image\<close>

text \<open>
  The parameters \<open>targetAddr\<close> and \<open>payload\<close> of \<open>createUf2Block\<close> are \<open>addr\<close> and
  \<open>data\<close> here, the former names being fields of \<open>Uf2Block\<close>. \<open>targetAddr >>> 0\<close> is the
  address as an unsigned 32-bit value.
\<close>

definition createUf2Block :: "nat \<Rightarrow> byte list \<Rightarrow> error + byte list" where
  "createUf2Block addr data =
     (if length data \<noteq> 256 then Inl PayloadNot256
      else
        andThen (setUint32 (replicate 512 0) 0 0x0a324655) (\<lambda>block.
        andThen (setUint32 block 4 0x9e5d5157) (\<lambda>block.
        andThen (setUint32 block 8 0x2000) (\<lambda>block.
        andThen (setUint32 block 12 (of_nat addr)) (\<lambda>block.
        andThen (setUint32 block 16 256) (\<lambda>block.
        andThen (setUint32 block 28 0xe48bff56) (\<lambda>block.
        andThen (set_array block data 32) (\<lambda>block.
        setUint32 block (512 - 4) 0x0ab16f30))))))))"

text \<open>The loop \<open>for (let i = 0; i < USER_FLASH_SIZE / USER_BLOCK_SIZE; i++)\<close>.\<close>

function makeBlocksLoop :: "byte list \<Rightarrow> nat \<Rightarrow> byte list list \<Rightarrow> error + byte list list" where
  "makeBlocksLoop userFlashImage16k i blocks =
     (if i < USER_FLASH_SIZE div USER_BLOCK_SIZE
      then (case createUf2Block (USER_FLASH_START + i * 256)
                   (slice userFlashImage16k (i * 256) (i * 256 + 256)) of
              Inl e \<Rightarrow> Inl e
            | Inr b \<Rightarrow> makeBlocksLoop userFlashImage16k (i + 1) (blocks @ [b]))
      else Inr blocks)"
  by pat_completeness auto
termination
  by (relation "measure (\<lambda>(image, i, blocks). USER_FLASH_SIZE div USER_BLOCK_SIZE - i)") auto

declare makeBlocksLoop.simps [simp del]

definition makeUserScriptUf2Blocks :: "byte list \<Rightarrow> error + byte list list" where
  "makeUserScriptUf2Blocks userFlashImage16k =
     (if length userFlashImage16k \<noteq> USER_FLASH_SIZE then Inl Expected16KImage
      else makeBlocksLoop userFlashImage16k 0 [])"

section \<open>Merging the base container with the script blocks\<close>

definition inUserRange :: "u32 \<Rightarrow> bool" where
  "inUserRange addr = (addr \<ge> 0x101fc000 \<and> addr \<le> 0x101fffff)"

definition filterOutUserRegion :: "Uf2Block list \<Rightarrow> Uf2Block list" where
  "filterOutUserRegion blocks = filter (\<lambda>b. \<not> inUserRange (targetAddr b)) blocks"

text \<open>
  The loop of \<open>serializeAndRenumber\<close>. The two \<open>setUint32\<close> calls write into the block
  itself before it is copied into \<open>out\<close>; every block of the caller is a fresh copy, so
  the model keeps the rewritten block local. The variable \<open>total\<close> of the source is
  \<open>totalCount\<close> here.
\<close>

function serializeLoop :: "byte list list \<Rightarrow> nat \<Rightarrow> nat \<Rightarrow> byte list \<Rightarrow> error + byte list" where
  "serializeLoop allBlocks512 totalCount i out =
     (if i < totalCount
      then (case setUint32 (allBlocks512 ! i) 20 (of_nat i) of
              Inl e \<Rightarrow> Inl e
            | Inr block \<Rightarrow>
                (case setUint32 block 24 (of_nat totalCount) of
                   Inl e \<Rightarrow> Inl e
                 | Inr block \<Rightarrow>
                     (case set_array out block (i * 512) of
                        Inl e \<Rightarrow> Inl e
                      | Inr out \<Rightarrow> serializeLoop allBlocks512 totalCount (i + 1) out)))
      else Inr out)"
  by pat_completeness auto
termination
  by (relation "measure (\<lambda>(allBlocks512, totalCount, i, out). totalCount - i)") auto

declare serializeLoop.simps [simp del]

definition serializeAndRenumber :: "byte list list \<Rightarrow> error + byte list" where
  "serializeAndRenumber allBlocks512 =
     (let totalCount = length allBlocks512;
          out = replicate (totalCount * 512) 0
      in serializeLoop allBlocks512 totalCount 0 out)"

text \<open>
  The loop of \<open>injectScriptIntoBaseUf2\<close> that keeps the raw 512-byte slices of the base
  image whose target address is outside the user region.
\<close>

function baseBlocksLoop :: "byte list \<Rightarrow> nat \<Rightarrow> byte list list \<Rightarrow> error + byte list list" where
  "baseBlocksLoop baseUf2Bytes i baseBlocks512 =
     (if i < length baseUf2Bytes
      then (let chunk = slice baseUf2Bytes i (i + 512)
            in case getUint32 chunk 12 of
                 Inl e \<Rightarrow> Inl e
               | Inr addr \<Rightarrow>
                   baseBlocksLoop baseUf2Bytes (i + 512)
                     (if \<not> inUserRange addr then baseBlocks512 @ [chunk]
                      else baseBlocks512))
      else Inr baseBlocks512)"
  by pat_completeness auto
termination
  by (relation "measure (\<lambda>(baseUf2Bytes, i, baseBlocks512). length baseUf2Bytes - i)") auto

declare baseBlocksLoop.simps [simp del]

definition injectScriptIntoBaseUf2 :: "byte list \<Rightarrow> jsstring \<Rightarrow> error + byte list" where
  "injectScriptIntoBaseUf2 baseUf2Bytes scriptText =
     (let scriptUtf8 = TextEncoder_encode scriptText;
          name = deriveScriptName scriptText
      in andThen (buildUserFlashImage scriptUtf8 name 0x040) (\<lambda>image16k.
         andThen (makeUserScriptUf2Blocks image16k) (\<lambda>scriptBlocks512.
         andThen (parseUf2 baseUf2Bytes) (\<lambda>parsed.
           let baseBlocks = filterOutUserRegion parsed
           in andThen (baseBlocksLoop baseUf2Bytes 0 []) (\<lambda>baseBlocks512.
                serializeAndRenumber (baseBlocks512 @ scriptBlocks512))))))"

section \<open>Vocabulary of the properties\<close>

text \<open>
  What the format says of the 512-byte block that starts at offset \<open>off\<close> of a buffer: its
  three magic words, its payload size, and the record of its fields.
\<close>

definition bad_magic_at :: "byte list \<Rightarrow> nat \<Rightarrow> bool" where
  "bad_magic_at bs off =
     (u32_at bs off \<noteq> 0x0a324655 \<or> u32_at bs (off + 4) \<noteq> 0x9e5d5157
      \<or> u32_at bs (off + 508) \<noteq> 0x0ab16f30)"

definition payload_overflow_at :: "byte list \<Rightarrow> nat \<Rightarrow> bool" where
  "payload_overflow_at bs off = (u32_at bs (off + 16) > 476)"

definition decode_at :: "byte list \<Rightarrow> nat \<Rightarrow> Uf2Block" where
  "decode_at bs off =
     \<lparr> magicStart0 = u32_at bs off, magicStart1 = u32_at bs (off + 4),
       flags = u32_at bs (off + 8), targetAddr = u32_at bs (off + 12),
       payloadSize = u32_at bs (off + 16), blockNo = u32_at bs (off + 20),
       numBlocks = u32_at bs (off + 24), familyId = u32_at bs (off + 28),
       payload = take (unat (u32_at bs (off + 16))) (drop (off + 32) bs) \<rparr>"

text \<open>
  The 512 bytes of a block with the given header fields and payload, laid out as the
  format describes; used to write down concrete containers.
\<close>

definition mk_block :: "u32 \<Rightarrow> u32 \<Rightarrow> u32 \<Rightarrow> u32 \<Rightarrow> u32 \<Rightarrow> u32 \<Rightarrow> byte list \<Rightarrow> byte list" where
  "mk_block fl addr sz no num fam data =
     u32_bytes 0x0a324655 @ u32_bytes 0x9e5d5157 @ u32_bytes fl @ u32_bytes addr @
     u32_bytes sz @ u32_bytes no @ u32_bytes num @ u32_bytes fam @
     data @ replicate (476 - length data) 0 @ u32_bytes 0x0ab16f30"

text \<open>A block after \<open>serializeAndRenumber\<close> has written its number and the total count.\<close>

definition renumbered :: "nat \<Rightarrow> nat \<Rightarrow> byte list \<Rightarrow> byte list" where
  "renumbered i n block =
     overwrite (overwrite block 20 (u32_bytes (of_nat i))) 24 (u32_bytes (of_nat n))"

text \<open>The \<open>k\<close>-th 512-byte slice of a buffer.\<close>

definition chunk :: "byte list \<Rightarrow> nat \<Rightarrow> byte list" where
  "chunk bs k = slice bs (512 * k) (512 * k + 512)"

text \<open>
  The block that \<open>makeUserScriptUf2Blocks\<close> builds for the \<open>j\<close>-th 256-byte slice of the
  region image.
\<close>

definition script_block :: "byte list \<Rightarrow> nat \<Rightarrow> byte list" where
  "script_block img j =
     mk_block 0x2000 (of_nat (USER_FLASH_START + j * 256)) 256 0 0 0xe48bff56
       (slice img (j * 256) (j * 256 + 256))"

text \<open>A parsed block with a given target address, for concrete containers.\<close>

definition block_at_addr :: "u32 \<Rightarrow> Uf2Block" where
  "block_at_addr a =
     \<lparr> magicStart0 = 0x0a324655, magicStart1 = 0x9e5d5157, flags = 0x2000, targetAddr = a,
       payloadSize = 256, blockNo = 7, numBlocks = 9, familyId = 0xe48bff56,
       payload = replicate 256 0 \<rparr>"

text \<open>
  The filter as the specification words it, with the address range as a parameter: the
  blocks whose target address lies outside the inclusive range from \<open>regionStart\<close> to
  \<open>regionEnd\<close>, in their order. The function of the source takes no range.
\<close>

definition filter_by_range :: "Uf2Block list \<Rightarrow> u32 \<Rightarrow> u32 \<Rightarrow> Uf2Block list" where
  "filter_by_range blocks regionStart regionEnd =
     filter (\<lambda>b. \<not> (regionStart \<le> targetAddr b \<and> targetAddr b \<le> regionEnd)) blocks"

text \<open>The output of \<open>serializeAndRenumber\<close> on blocks of 512 bytes.\<close>

definition serialized :: "byte list list \<Rightarrow> byte list" where
  "serialized blocks =
     concat (map (\<lambda>j. renumbered j (length blocks) (blocks ! j)) [0..<length blocks])"

text \<open>The raw 512-byte slices of a base image whose target address is outside the user region.\<close>

definition survivors :: "byte list \<Rightarrow> byte list list" where
  "survivors bs =
     filter (\<lambda>c. \<not> inUserRange (u32_at c 12)) (map (chunk bs) [0..<length bs div 512])"

text \<open>
  The layout of the 16384-byte region: status word, name, terminator, script, and \<open>0xFF\<close>
  wherever nothing is written.
\<close>

definition region_layout :: "u32 \<Rightarrow> byte list \<Rightarrow> byte list \<Rightarrow> byte list" where
  "region_layout statusWord nameBytes script =
     u32_bytes statusWord @ nameBytes @ [0] @ replicate (31 - length nameBytes) 0xff @
     script @ replicate (16348 - length script) 0xff"

definition status_of :: "u32 \<Rightarrow> nat \<Rightarrow> u32" where
  "status_of versionWord len =
     0x0a OR push_bit 4 (versionWord AND 0x0fff) OR push_bit 16 (of_nat len AND 0xffff)"

text \<open>
  Concrete inputs: a block outside the user region, a stale block inside it, a base
  container of 128 blocks outside the region, and the script of the end-to-end scenario,
  \<open>---demo\<close>, line feed, \<open>print(1)\<close>, line feed, as UTF-16 code units.
\<close>

definition plain_block :: "nat \<Rightarrow> byte list" where
  "plain_block i =
     mk_block 0x2000 (of_nat (0x10000000 + 256 * i)) 256 (of_nat i) 128 0xe48bff56
       (replicate 256 (of_nat i))"

definition stale_block :: "byte list" where
  "stale_block = mk_block 0x2000 0x101fc000 256 1 2 0xe48bff56 (replicate 256 0)"

definition demo_base :: "byte list" where
  "demo_base = concat (map plain_block [0..<128])"

definition demo_script :: jsstring where
  "demo_script =
     [0x2D, 0x2D, 0x2D, 0x64, 0x65, 0x6D, 0x6F, 0x0A,
      0x70, 0x72, 0x69, 0x6E, 0x74, 0x28, 0x31, 0x29, 0x0A]"

text \<open>
  The reading of claim C3: the byte offsets at which a character of the encoded name ends
  (0 included), and the property that the name field holds a prefix of the encoding that
  ends at such an offset, of at most 31 bytes, followed by a NUL. A name of sixteen
  two-byte characters (U+00E9) serves as the test.
\<close>

definition utf8_boundaries :: "jsstring \<Rightarrow> nat list" where
  "utf8_boundaries s =
     map (\<lambda>k. length (concat (map utf8_of_code_point (take k (code_points s)))))
       [0..<Suc (length (code_points s))]"

definition name_cut_at_boundary :: "jsstring \<Rightarrow> byte list \<Rightarrow> bool" where
  "name_cut_at_boundary name img =
     list_ex (\<lambda>k. k \<in> set (utf8_boundaries name) \<and>
                  take (Suc k) (drop 4 img) = take k (TextEncoder_encode name) @ [0])
       [0..<32]"

definition accented_name :: jsstring where
  "accented_name =
     [0xE9, 0xE9, 0xE9, 0xE9, 0xE9, 0xE9, 0xE9, 0xE9,
      0xE9, 0xE9, 0xE9, 0xE9, 0xE9, 0xE9, 0xE9, 0xE9]"

text \<open>Bits 16 to 31 of the little-endian word at an offset of a buffer.\<close>

definition length_field_at :: "nat \<Rightarrow> byte list \<Rightarrow> u32" where
  "length_field_at off bs = drop_bit 16 (u32_at bs off)"

section \<open>Basic facts about bytes and words\<close>


lemma le32_u32_bytes: "le32 (ucast w) (ucast (drop_bit 8 w)) (ucast (drop_bit 16 w)) (ucast (drop_bit 24 w)) = w"
proof (rule bit_word_eqI)
  fix n assume "n < LENGTH(32)"
  then consider "n < 8" | "8 \<le> n" "n < 16" | "16 \<le> n" "n < 24" | "24 \<le> n" "n < 32"
    by fastforce
  then show "bit (le32 (ucast w) (ucast (drop_bit 8 w)) (ucast (drop_bit 16 w)) (ucast (drop_bit 24 w))) n = bit w n"
    by cases (auto simp: le32_def bit_simps)
qed

lemma length_u32_bytes [simp]: "length (u32_bytes w) = 4"
  by (simp add: u32_bytes_def)

lemma u32_at_u32_bytes: "u32_at (pre @ u32_bytes w @ post) (length pre) = w"
  by (simp add: u32_at_def u32_bytes_def nth_append le32_u32_bytes)

lemma length_overwrite [simp]:
  "off + length src \<le> length t \<Longrightarrow> length (overwrite t off src) = length t"
  by (simp add: overwrite_def)

lemma nth_overwrite:
  "off + length src \<le> length t \<Longrightarrow> i < length t \<Longrightarrow>
   overwrite t off src ! i = (if off \<le> i \<and> i < off + length src then src ! (i - off) else t ! i)"
  by (auto simp: overwrite_def nth_append)

lemma u32_at_overwrite_same:
  "off + 4 \<le> length t \<Longrightarrow> u32_at (overwrite t off (u32_bytes w)) off = w"
  using u32_at_u32_bytes [of "take off t" w "drop (off + 4) t"]
  by (simp add: overwrite_def)

lemma u32_at_overwrite_other:
  "off + length src \<le> length t \<Longrightarrow> i + 4 \<le> length t \<Longrightarrow> i + 4 \<le> off \<or> off + length src \<le> i \<Longrightarrow>
   u32_at (overwrite t off src) i = u32_at t i"
  by (auto simp: u32_at_def nth_overwrite)

section \<open>The parse loop\<close>

lemma andThen_simps [simp]:
  "andThen (Inl e) f = Inl e" "andThen (Inr x) f = f x"
  by (simp_all add: andThen_def)

lemma getUint32_in_range: "off + 4 \<le> length bs \<Longrightarrow> getUint32 bs off = Inr (u32_at bs off)"
  by (simp add: getUint32_def)

lemma parseBlockAt_in_range:
  assumes "off + 512 \<le> length bs"
  shows "parseBlockAt bs off =
     (if bad_magic_at bs off then Inl (BadMagic off)
      else if payload_overflow_at bs off then Inl (InvalidPayloadSize (u32_at bs (off + 16)))
      else Inr (decode_at bs off))"
proof -
  have eq: "off + 512 - 4 = off + 508" by simp
  show ?thesis
    unfolding parseBlockAt_def eq
    using assms
    by (simp add: getUint32_in_range bad_magic_at_def payload_overflow_at_def
        decode_at_def slice_def)
qed

lemma aligned_step: "512 dvd n \<Longrightarrow> 512 dvd off \<Longrightarrow> off < n \<Longrightarrow> off + 512 \<le> (n::nat)"
  by (auto elim!: dvdE)

lemma div_step: "512 dvd off \<Longrightarrow> (off + 512) div 512 = Suc (off div (512::nat))"
  by simp

lemma parseLoop_ok:
  "512 dvd length bs \<Longrightarrow> 512 dvd off \<Longrightarrow>
   (\<forall>k. off \<le> 512 * k \<and> 512 * k < length bs \<longrightarrow>
        \<not> bad_magic_at bs (512 * k) \<and> \<not> payload_overflow_at bs (512 * k)) \<Longrightarrow>
   parseLoop bs off acc =
     Inr (acc @ map (\<lambda>k. decode_at bs (512 * k)) [off div 512..<length bs div 512])"
proof (induction bs off acc rule: parseLoop.induct)
  case (1 bs off acc)
  show ?case
  proof (cases "off < length bs")
    case False
    then have "length bs div 512 \<le> off div 512" by (simp add: div_le_mono)
    with False show ?thesis by (simp add: parseLoop.simps [of bs off])
  next
    case True
    with "1.prems" have fit: "off + 512 \<le> length bs" by (simp add: aligned_step)
    from "1.prems"(2) obtain j where j: "off = 512 * j" by (auto elim: dvdE)
    with "1.prems"(3) True have ok: "\<not> bad_magic_at bs off" "\<not> payload_overflow_at bs off"
      by auto
    then have pb: "parseBlockAt bs off = Inr (decode_at bs off)"
      by (simp add: parseBlockAt_in_range [OF fit])
    have lt: "off div 512 < length bs div 512"
      using fit j by (simp add: less_eq_div_iff_mult_less_eq) 
    have "parseLoop bs (off + 512) (acc @ [decode_at bs off]) =
       Inr ((acc @ [decode_at bs off]) @
          map (\<lambda>k. decode_at bs (512 * k)) [(off + 512) div 512..<length bs div 512])"
      using "1.prems" by (intro "1.IH" [OF True pb]) auto
    then show ?thesis
      using True pb lt "1.prems"(2)
      by (simp add: parseLoop.simps [of bs off] upt_conv_Cons)
  qed
qed


lemma parseLoop_error:
  "512 dvd length bs \<Longrightarrow> 512 dvd off \<Longrightarrow> parseLoop bs off acc = Inl e \<Longrightarrow>
   \<exists>k. off \<le> 512 * k \<and> 512 * k < length bs \<and>
       (\<forall>i. off \<le> 512 * i \<and> i < k \<longrightarrow>
            \<not> bad_magic_at bs (512 * i) \<and> \<not> payload_overflow_at bs (512 * i)) \<and>
       (if bad_magic_at bs (512 * k) then e = BadMagic (512 * k)
        else payload_overflow_at bs (512 * k) \<and>
             e = InvalidPayloadSize (u32_at bs (512 * k + 16)))"
proof (induction bs off acc rule: parseLoop.induct)
  case (1 bs off acc)
  from "1.prems"(3) have True: "off < length bs"
    by (simp add: parseLoop.simps [of bs off] split: if_splits)
  with "1.prems" have fit: "off + 512 \<le> length bs" by (simp add: aligned_step)
  from "1.prems"(2) obtain j where j: "off = 512 * j" by (auto elim: dvdE)
  show ?case
  proof (cases "parseBlockAt bs off")
    case (Inl e')
    with "1.prems"(3) True have "e' = e" by (simp add: parseLoop.simps [of bs off])
    with Inl have "if bad_magic_at bs off then e = BadMagic off
        else payload_overflow_at bs off \<and> e = InvalidPayloadSize (u32_at bs (off + 16))"
      by (auto simp: parseBlockAt_in_range [OF fit] split: if_splits)
    with True j show ?thesis by (intro exI [of _ j]) auto
  next
    case (Inr b)
    then have ok: "\<not> bad_magic_at bs off" "\<not> payload_overflow_at bs off"
      by (auto simp: parseBlockAt_in_range [OF fit] split: if_splits)
    from "1.prems"(3) True Inr have "parseLoop bs (off + 512) (acc @ [b]) = Inl e"
      by (simp add: parseLoop.simps [of bs off])
    with "1.prems" obtain k where k: "off + 512 \<le> 512 * k" "512 * k < length bs"
        "\<forall>i. off + 512 \<le> 512 * i \<and> i < k \<longrightarrow>
            \<not> bad_magic_at bs (512 * i) \<and> \<not> payload_overflow_at bs (512 * i)"
        "if bad_magic_at bs (512 * k) then e = BadMagic (512 * k)
         else payload_overflow_at bs (512 * k) \<and>
              e = InvalidPayloadSize (u32_at bs (512 * k + 16))"
      using "1.IH" [OF True Inr] by auto
    have "\<not> bad_magic_at bs (512 * i) \<and> \<not> payload_overflow_at bs (512 * i)"
      if "off \<le> 512 * i \<and> i < k" for i
    proof (cases "i = j")
      case True
      with ok j show ?thesis by simp
    next
      case False
      with that j have "off + 512 \<le> 512 * i" by auto
      with k(3) that show ?thesis by blast
    qed
    with k show ?thesis by (intro exI [of _ k]) auto
  qed
qed


lemma parseLoop_fails:
  "512 dvd length bs \<Longrightarrow> 512 dvd off \<Longrightarrow> off \<le> 512 * k \<Longrightarrow> 512 * k < length bs \<Longrightarrow>
   bad_magic_at bs (512 * k) \<or> payload_overflow_at bs (512 * k) \<Longrightarrow>
   \<exists>e. parseLoop bs off acc = Inl e"
proof (induction bs off acc rule: parseLoop.induct)
  case (1 bs off acc)
  from "1.prems" have True: "off < length bs" by simp
  with "1.prems" have fit: "off + 512 \<le> length bs" by (simp add: aligned_step)
  show ?case
  proof (cases "parseBlockAt bs off")
    case (Inl e)
    with True show ?thesis by (simp add: parseLoop.simps [of bs off])
  next
    case (Inr b)
    then have ok: "\<not> bad_magic_at bs off" "\<not> payload_overflow_at bs off"
      by (auto simp: parseBlockAt_in_range [OF fit] split: if_splits)
    with "1.prems"(5) have "off \<noteq> 512 * k" by auto
    with "1.prems"(2,3) have "off + 512 \<le> 512 * k" by (auto elim!: dvdE)
    with "1.prems" have "\<exists>e. parseLoop bs (off + 512) (acc @ [b]) = Inl e"
      by (intro "1.IH" [OF True Inr]) auto
    with True Inr show ?thesis by (simp add: parseLoop.simps [of bs off])
  qed
qed

lemma parseUf2_ok:
  assumes "length bs mod 512 = 0"
    and "\<forall>k<length bs div 512. \<not> bad_magic_at bs (512 * k) \<and> \<not> payload_overflow_at bs (512 * k)"
  shows "parseUf2 bs = Inr (map (\<lambda>k. decode_at bs (512 * k)) [0..<length bs div 512])"
proof -
  from assms(1) have d: "512 dvd length bs" by (simp add: dvd_eq_mod_eq_0)
  have "\<forall>k. 0 \<le> 512 * k \<and> 512 * k < length bs \<longrightarrow>
        \<not> bad_magic_at bs (512 * k) \<and> \<not> payload_overflow_at bs (512 * k)"
    using assms(2) d by (auto simp: less_mult_imp_div_less elim!: dvdE)
  from parseLoop_ok [OF d _ this, of "[]"] assms(1) show ?thesis
    by (simp add: parseUf2_def)
qed

lemma parseUf2_error:
  assumes "length bs mod 512 = 0" and "parseUf2 bs = Inl e"
  shows "\<exists>k<length bs div 512.
       (\<forall>i<k. \<not> bad_magic_at bs (512 * i) \<and> \<not> payload_overflow_at bs (512 * i)) \<and>
       (if bad_magic_at bs (512 * k) then e = BadMagic (512 * k)
        else payload_overflow_at bs (512 * k) \<and>
             e = InvalidPayloadSize (u32_at bs (512 * k + 16)))"
proof -
  from assms(1) have d: "512 dvd length bs" by (simp add: dvd_eq_mod_eq_0)
  from assms have "parseLoop bs 0 [] = Inl e" by (simp add: parseUf2_def)
  from parseLoop_error [OF d _ this] obtain k where k: "512 * k < length bs"
     "\<forall>i<k. \<not> bad_magic_at bs (512 * i) \<and> \<not> payload_overflow_at bs (512 * i)"
     "if bad_magic_at bs (512 * k) then e = BadMagic (512 * k)
        else payload_overflow_at bs (512 * k) \<and>
             e = InvalidPayloadSize (u32_at bs (512 * k + 16))"
    by auto
  from k(1) d have "k < length bs div 512" by (auto elim!: dvdE)
  with k show ?thesis by blast
qed

lemma parseUf2_misaligned: "length bs mod 512 \<noteq> 0 \<Longrightarrow> parseUf2 bs = Inl LengthNotMultipleOf512"
  by (simp add: parseUf2_def)

section \<open>The parser rejects exactly the malformed containers\<close>

text \<open>
  Claim C9. \<open>parseUf2\<close> fails if and only if the length of the input is not a multiple of
  512, or one of its 512-byte slices has a leading or trailing magic word other than the
  fixed constants, or the payload size of one of them exceeds 476. A misaligned length is
  reported as such; otherwise the error is that of the first offending slice, a bad magic
  carrying the offset of the slice. A well-formed input is decoded slice by slice into the
  sequence of its blocks. A buffer of 513 bytes fails for its length.
\<close>

theorem parseUf2_malformed_iff:
  "((\<exists>e. parseUf2 bytes = Inl e) \<longleftrightarrow>
      (length bytes mod 512 \<noteq> 0 \<or>
       (\<exists>k<length bytes div 512.
          bad_magic_at bytes (512 * k) \<or> payload_overflow_at bytes (512 * k))))
   \<and> (length bytes mod 512 \<noteq> 0 \<longrightarrow> parseUf2 bytes = Inl LengthNotMultipleOf512)
   \<and> (\<forall>e. length bytes mod 512 = 0 \<and> parseUf2 bytes = Inl e \<longrightarrow>
         (\<exists>k<length bytes div 512.
            (\<forall>i<k. \<not> bad_magic_at bytes (512 * i) \<and> \<not> payload_overflow_at bytes (512 * i)) \<and>
            (if bad_magic_at bytes (512 * k) then e = BadMagic (512 * k)
             else payload_overflow_at bytes (512 * k) \<and>
                  e = InvalidPayloadSize (u32_at bytes (512 * k + 16)))))
   \<and> (length bytes mod 512 = 0 \<and>
       (\<forall>k<length bytes div 512.
          \<not> bad_magic_at bytes (512 * k) \<and> \<not> payload_overflow_at bytes (512 * k)) \<longrightarrow>
       parseUf2 bytes = Inr (map (\<lambda>k. decode_at bytes (512 * k)) [0..<length bytes div 512]))
   \<and> (length bytes = 513 \<longrightarrow> parseUf2 bytes = Inl LengthNotMultipleOf512)"
proof (intro conjI allI impI)
  show "(\<exists>e. parseUf2 bytes = Inl e) \<longleftrightarrow>
      (length bytes mod 512 \<noteq> 0 \<or>
       (\<exists>k<length bytes div 512.
          bad_magic_at bytes (512 * k) \<or> payload_overflow_at bytes (512 * k)))"
  proof
    assume "\<exists>e. parseUf2 bytes = Inl e"
    then obtain e where e: "parseUf2 bytes = Inl e" ..
    show "length bytes mod 512 \<noteq> 0 \<or>
       (\<exists>k<length bytes div 512.
          bad_magic_at bytes (512 * k) \<or> payload_overflow_at bytes (512 * k))"
    proof (cases "length bytes mod 512 = 0")
      case True
      from parseUf2_error [OF True e] show ?thesis by (auto split: if_splits)
    qed simp
  next
    assume bad: "length bytes mod 512 \<noteq> 0 \<or>
       (\<exists>k<length bytes div 512.
          bad_magic_at bytes (512 * k) \<or> payload_overflow_at bytes (512 * k))"
    show "\<exists>e. parseUf2 bytes = Inl e"
    proof (cases "length bytes mod 512 = 0")
      case False
      then show ?thesis by (simp add: parseUf2_misaligned)
    next
      case True
      show ?thesis
      proof (cases "parseUf2 bytes")
        case (Inr blocks)
        from True have d: "512 dvd length bytes" by (simp add: dvd_eq_mod_eq_0)
        from bad True obtain k where k: "k < length bytes div 512"
          "bad_magic_at bytes (512 * k) \<or> payload_overflow_at bytes (512 * k)" by auto
        from Inr True have loop: "parseLoop bytes 0 [] = Inr blocks" by (simp add: parseUf2_def)
        have "\<exists>e. parseLoop bytes 0 [] = Inl e"
          using parseLoop_fails [OF d _ _ _ k(2), of 0 "[]"] k(1) d
          by (auto elim!: dvdE)
        with loop show ?thesis by simp
      qed blast
    qed
  qed
next
  assume "length bytes mod 512 \<noteq> 0"
  then show "parseUf2 bytes = Inl LengthNotMultipleOf512" by (rule parseUf2_misaligned)
next
  fix e assume "length bytes mod 512 = 0 \<and> parseUf2 bytes = Inl e"
  then have "length bytes mod 512 = 0" "parseUf2 bytes = Inl e" by simp_all
  then show "\<exists>k<length bytes div 512.
            (\<forall>i<k. \<not> bad_magic_at bytes (512 * i) \<and> \<not> payload_overflow_at bytes (512 * i)) \<and>
            (if bad_magic_at bytes (512 * k) then e = BadMagic (512 * k)
             else payload_overflow_at bytes (512 * k) \<and>
                  e = InvalidPayloadSize (u32_at bytes (512 * k + 16)))"
    by (rule parseUf2_error)
next
  assume "length bytes mod 512 = 0 \<and>
       (\<forall>k<length bytes div 512.
          \<not> bad_magic_at bytes (512 * k) \<and> \<not> payload_overflow_at bytes (512 * k))"
  then have "length bytes mod 512 = 0" "\<forall>k<length bytes div 512.
          \<not> bad_magic_at bytes (512 * k) \<and> \<not> payload_overflow_at bytes (512 * k)" by simp_all
  then show "parseUf2 bytes = Inr (map (\<lambda>k. decode_at bytes (512 * k)) [0..<length bytes div 512])"
    by (rule parseUf2_ok)
next
  assume "length bytes = 513"
  then show "parseUf2 bytes = Inl LengthNotMultipleOf512" by (simp add: parseUf2_misaligned)
qed


text \<open>Blocks laid out by \<open>mk_block\<close> carry the fields they were given.\<close>

lemma length_mk_block [simp]:
  "length data \<le> 476 \<Longrightarrow> length (mk_block fl addr sz no num fam data) = 512"
  by (simp add: mk_block_def)

lemma u32_at_append_left: "off + 4 \<le> length xs \<Longrightarrow> u32_at (xs @ ys) off = u32_at xs off"
  by (simp add: u32_at_def nth_append)

lemma u32_at_append_right: "length xs \<le> off \<Longrightarrow> u32_at (xs @ ys) off = u32_at ys (off - length xs)"
  by (simp add: u32_at_def nth_append Suc_diff_le)

lemma u32_at_head [simp]: "u32_at (u32_bytes w @ ys) 0 = w"
  using u32_at_u32_bytes [of "[]" w ys] by simp

lemma mk_block_fields:
  "u32_at (mk_block fl addr sz no num fam data) 0 = 0x0a324655"
  "u32_at (mk_block fl addr sz no num fam data) 4 = 0x9e5d5157"
  "u32_at (mk_block fl addr sz no num fam data) 8 = fl"
  "u32_at (mk_block fl addr sz no num fam data) 12 = addr"
  "u32_at (mk_block fl addr sz no num fam data) 16 = sz"
  "u32_at (mk_block fl addr sz no num fam data) 20 = no"
  "u32_at (mk_block fl addr sz no num fam data) 24 = num"
  "u32_at (mk_block fl addr sz no num fam data) 28 = fam"
  by (simp_all add: mk_block_def u32_at_append_right)

lemma mk_block_magic_end:
  "length data \<le> 476 \<Longrightarrow> u32_at (mk_block fl addr sz no num fam data) 508 = 0x0ab16f30"
  using u32_at_u32_bytes [of _ "0x0ab16f30" "[]"]
  by (simp add: mk_block_def u32_at_append_right)

lemma mk_block_payload:
  "take (length data) (drop 32 (mk_block fl addr sz no num fam data)) = data"
  by (simp add: mk_block_def)

text \<open>
  Three inputs for C9: 513 zero bytes, one block of zeros (its magic is wrong), and one
  well-formed block.
\<close>

theorem parseUf2_malformed_iff_witness:
  "parseUf2 (replicate 513 0) = Inl LengthNotMultipleOf512
   \<and> (\<exists>e. parseUf2 (replicate 512 0) = Inl e)
   \<and> parseUf2 (mk_block 0x2000 0x10000000 256 0 1 0xe48bff56 (replicate 256 0xAB)) =
       Inr [\<lparr> magicStart0 = 0x0a324655, magicStart1 = 0x9e5d5157, flags = 0x2000,
              targetAddr = 0x10000000, payloadSize = 256, blockNo = 0, numBlocks = 1,
              familyId = 0xe48bff56, payload = replicate 256 0xAB \<rparr>]"
proof (intro conjI)
  show "parseUf2 (replicate 513 0) = Inl LengthNotMultipleOf512"
    using parseUf2_malformed_iff [of "replicate 513 0"] by simp
  have "bad_magic_at (replicate 512 0) 0"
    by (simp add: bad_magic_at_def u32_at_def le32_def)
  then show "\<exists>e. parseUf2 (replicate 512 0) = Inl e"
    using parseUf2_malformed_iff [of "replicate 512 0"] by auto
  let ?b = "mk_block 0x2000 0x10000000 256 0 1 0xe48bff56 (replicate 256 0xAB)"
  have ok: "\<not> bad_magic_at ?b 0" "\<not> payload_overflow_at ?b 0"
    by (simp_all add: bad_magic_at_def payload_overflow_at_def mk_block_fields mk_block_magic_end)
  have dec: "decode_at ?b 0 = \<lparr> magicStart0 = 0x0a324655, magicStart1 = 0x9e5d5157, flags = 0x2000,
              targetAddr = 0x10000000, payloadSize = 256, blockNo = 0, numBlocks = 1,
              familyId = 0xe48bff56, payload = replicate 256 0xAB \<rparr>"
    using mk_block_payload [where data = "replicate 256 0xAB"]
    by (simp add: decode_at_def mk_block_fields)
  show "parseUf2 ?b = Inr [\<lparr> magicStart0 = 0x0a324655, magicStart1 = 0x9e5d5157, flags = 0x2000,
              targetAddr = 0x10000000, payloadSize = 256, blockNo = 0, numBlocks = 1,
              familyId = 0xe48bff56, payload = replicate 256 0xAB \<rparr>]"
    using parseUf2_malformed_iff [of ?b] ok dec by simp
qed




lemma parseUf2_Inr_iff:
  "parseUf2 bs = Inr blocks \<longleftrightarrow>
     length bs mod 512 = 0 \<and>
     (\<forall>k<length bs div 512. \<not> bad_magic_at bs (512 * k) \<and> \<not> payload_overflow_at bs (512 * k)) \<and>
     blocks = map (\<lambda>k. decode_at bs (512 * k)) [0..<length bs div 512]"
proof
  assume r: "parseUf2 bs = Inr blocks"
  then have m: "length bs mod 512 = 0" by (auto simp: parseUf2_def split: if_splits)
  then have d: "512 dvd length bs" by (simp add: dvd_eq_mod_eq_0)
  from r m have loop: "parseLoop bs 0 [] = Inr blocks" by (simp add: parseUf2_def)
  have ok: "\<not> bad_magic_at bs (512 * k) \<and> \<not> payload_overflow_at bs (512 * k)"
    if "k < length bs div 512" for k
  proof (rule ccontr)
    assume "\<not> (\<not> bad_magic_at bs (512 * k) \<and> \<not> payload_overflow_at bs (512 * k))"
    then have "bad_magic_at bs (512 * k) \<or> payload_overflow_at bs (512 * k)" by blast
    moreover from that d have "512 * k < length bs" by (auto elim!: dvdE)
    ultimately have "\<exists>e. parseLoop bs 0 [] = Inl e"
      using parseLoop_fails [OF d, of 0 k "[]"] by simp
    with loop show False by simp
  qed
  with m parseUf2_ok [of bs] r show "length bs mod 512 = 0 \<and>
     (\<forall>k<length bs div 512. \<not> bad_magic_at bs (512 * k) \<and> \<not> payload_overflow_at bs (512 * k)) \<and>
     blocks = map (\<lambda>k. decode_at bs (512 * k)) [0..<length bs div 512]"
    by simp
next
  assume "length bs mod 512 = 0 \<and>
     (\<forall>k<length bs div 512. \<not> bad_magic_at bs (512 * k) \<and> \<not> payload_overflow_at bs (512 * k)) \<and>
     blocks = map (\<lambda>k. decode_at bs (512 * k)) [0..<length bs div 512]"
  then show "parseUf2 bs = Inr blocks" by (simp add: parseUf2_ok)
qed

section \<open>The family identifier is read whatever the flags say\<close>

text \<open>
  Claim C2, as amended. For every container that \<open>parseUf2\<close> accepts, the \<open>familyId\<close> of
  each decoded block is the little-endian word at offset 28 of its slice, whether or not
  bit 13 of the flags word is set; the flags word is decoded as it stands.
\<close>

theorem parseUf2_familyId_unconditional:
  assumes "parseUf2 bytes = Inr blocks" and "k < length blocks"
  shows "familyId (blocks ! k) = u32_at bytes (512 * k + 28)
       \<and> flags (blocks ! k) = u32_at bytes (512 * k + 8)"
  using assms by (auto simp: parseUf2_Inr_iff decode_at_def)

text \<open>A block whose flags word is zero and whose bytes at offset 28 are \<open>0x12345678\<close>.\<close>

theorem parseUf2_familyId_unconditional_witness:
  "parseUf2 (mk_block 0 0x10000000 256 0 1 0x12345678 (replicate 256 0)) =
     Inr [decode_at (mk_block 0 0x10000000 256 0 1 0x12345678 (replicate 256 0)) 0]
   \<and> familyId ([decode_at (mk_block 0 0x10000000 256 0 1 0x12345678 (replicate 256 0)) 0] ! 0) =
       0x12345678
   \<and> flags ([decode_at (mk_block 0 0x10000000 256 0 1 0x12345678 (replicate 256 0)) 0] ! 0) = 0"
proof -
  let ?b = "mk_block 0 0x10000000 256 0 1 0x12345678 (replicate 256 0)"
  have p: "parseUf2 ?b = Inr [decode_at ?b 0]"
    by (simp add: parseUf2_Inr_iff bad_magic_at_def payload_overflow_at_def mk_block_fields
        mk_block_magic_end)
  from parseUf2_familyId_unconditional [OF p, of 0] p show ?thesis
    by (simp add: mk_block_fields)
qed

text \<open>
  Claim C2 as it was stated fails: two blocks with bit 13 of the flags clear that differ
  only at offset 28 are decoded with different family identifiers, one of them not zero.
\<close>

theorem parseUf2_familyId_flag_clear_counterexample:
  "map_sum id (map familyId)
     (parseUf2 (mk_block 0 0x10000000 256 0 1 0x12345678 (replicate 256 0))) = Inr [0x12345678]
   \<and> map_sum id (map familyId)
     (parseUf2 (mk_block 0 0x10000000 256 0 1 0 (replicate 256 0))) = Inr [0]
   \<and> map_sum id (map flags)
     (parseUf2 (mk_block 0 0x10000000 256 0 1 0x12345678 (replicate 256 0))) = Inr [0]
   \<and> \<not> bit (0 :: u32) 13"
proof -
  have p: "parseUf2 (mk_block 0 0x10000000 256 0 1 fam (replicate 256 0)) =
      Inr [decode_at (mk_block 0 0x10000000 256 0 1 fam (replicate 256 0)) 0]" for fam
    by (simp add: parseUf2_Inr_iff bad_magic_at_def payload_overflow_at_def mk_block_fields
        mk_block_magic_end)
  show ?thesis
    by (simp add: p decode_at_def mk_block_fields)
qed

section \<open>Filtering the user region\<close>

lemma filterOutUserRegion_subseq: "subseq (filterOutUserRegion blocks) blocks"
  by (simp add: filterOutUserRegion_def)

text \<open>
  Claim C7, as amended. \<open>filterOutUserRegion\<close> takes no address range: for every
  container it is the filter of the specification at the one fixed range
  \<open>0x101FC000 .. 0x101FFFFF\<close>. It returns exactly the blocks whose target address lies
  outside that inclusive range, each as often as it occurs, in their original order and
  unchanged (the result is a subsequence of the input, so no field of a survivor is
  rewritten); no block of the result has its address in the range, and the empty container
  is mapped to the empty container.
\<close>

theorem filterOutUserRegion_exact:
  "filterOutUserRegion blocks = filter_by_range blocks 0x101fc000 0x101fffff
   \<and> subseq (filterOutUserRegion blocks) blocks
   \<and> mset (filterOutUserRegion blocks) =
       filter_mset (\<lambda>b. targetAddr b < 0x101fc000 \<or> 0x101fffff < targetAddr b) (mset blocks)
   \<and> (\<forall>b \<in> set (filterOutUserRegion blocks).
         \<not> (0x101fc000 \<le> targetAddr b \<and> targetAddr b \<le> 0x101fffff))
   \<and> length (filter (\<lambda>b. 0x101fc000 \<le> targetAddr b \<and> targetAddr b \<le> 0x101fffff)
               (filterOutUserRegion blocks)) = 0
   \<and> filterOutUserRegion [] = []"
proof -
  have eq: "(\<lambda>b. \<not> inUserRange (targetAddr b)) =
     (\<lambda>b. targetAddr b < 0x101fc000 \<or> 0x101fffff < targetAddr b)"
    by (auto simp: inUserRange_def fun_eq_iff)
  have fixed: "filterOutUserRegion blocks = filter_by_range blocks 0x101fc000 0x101fffff"
    by (simp add: filterOutUserRegion_def filter_by_range_def inUserRange_def)
  have rest: "subseq (filterOutUserRegion blocks) blocks
   \<and> mset (filterOutUserRegion blocks) =
       filter_mset (\<lambda>b. targetAddr b < 0x101fc000 \<or> 0x101fffff < targetAddr b) (mset blocks)
   \<and> (\<forall>b \<in> set (filterOutUserRegion blocks).
         \<not> (0x101fc000 \<le> targetAddr b \<and> targetAddr b \<le> 0x101fffff))
   \<and> length (filter (\<lambda>b. 0x101fc000 \<le> targetAddr b \<and> targetAddr b \<le> 0x101fffff)
               (filterOutUserRegion blocks)) = 0
   \<and> filterOutUserRegion [] = []"
    unfolding filterOutUserRegion_def eq
    by (auto simp: not_le not_less filter_empty_conv)
  from fixed rest show ?thesis by (rule conjI)
qed

text \<open>Four blocks, two of them inside the range (one at its last address).\<close>

theorem filterOutUserRegion_exact_witness:
  "filterOutUserRegion [block_at_addr 0x10000000, block_at_addr 0x101fc100,
      block_at_addr 0x101fffff, block_at_addr 0x10200000] =
     [block_at_addr 0x10000000, block_at_addr 0x10200000]
   \<and> subseq [block_at_addr 0x10000000, block_at_addr 0x10200000]
       [block_at_addr 0x10000000, block_at_addr 0x101fc100,
        block_at_addr 0x101fffff, block_at_addr 0x10200000]
   \<and> length (filter (\<lambda>b. 0x101fc000 \<le> targetAddr b \<and> targetAddr b \<le> 0x101fffff)
               [block_at_addr 0x10000000, block_at_addr 0x10200000]) = 0
   \<and> filter_by_range [block_at_addr 0x10000000, block_at_addr 0x101fc100,
        block_at_addr 0x101fffff, block_at_addr 0x10200000] 0x101fc000 0x101fffff =
       [block_at_addr 0x10000000, block_at_addr 0x10200000]"
proof -
  have r: "filterOutUserRegion [block_at_addr 0x10000000, block_at_addr 0x101fc100,
      block_at_addr 0x101fffff, block_at_addr 0x10200000] =
     [block_at_addr 0x10000000, block_at_addr 0x10200000]"
    by (simp add: filterOutUserRegion_def inUserRange_def block_at_addr_def)
  note t = filterOutUserRegion_exact [of "[block_at_addr 0x10000000, block_at_addr 0x101fc100,
      block_at_addr 0x101fffff, block_at_addr 0x10200000]", unfolded r]
  from t have "[block_at_addr 0x10000000, block_at_addr 0x10200000] =
       filter_by_range [block_at_addr 0x10000000, block_at_addr 0x101fc100,
        block_at_addr 0x101fffff, block_at_addr 0x10200000] 0x101fc000 0x101fffff"
    by (rule conjunct1)
  then have f: "filter_by_range [block_at_addr 0x10000000, block_at_addr 0x101fc100,
        block_at_addr 0x101fffff, block_at_addr 0x10200000] 0x101fc000 0x101fffff =
       [block_at_addr 0x10000000, block_at_addr 0x10200000]"
    by (rule sym)
  from t have s: "subseq [block_at_addr 0x10000000, block_at_addr 0x10200000]
       [block_at_addr 0x10000000, block_at_addr 0x101fc100,
        block_at_addr 0x101fffff, block_at_addr 0x10200000]"
    by (rule conjunct2 [THEN conjunct1])
  from t have z: "length (filter (\<lambda>b. 0x101fc000 \<le> targetAddr b \<and> targetAddr b \<le> 0x101fffff)
               [block_at_addr 0x10000000, block_at_addr 0x10200000]) = 0"
    by (rule conjunct2 [THEN conjunct2, THEN conjunct2, THEN conjunct2, THEN conjunct1])
  from r s z f show ?thesis by (intro conjI)
qed

text \<open>
  Claim C7 as it was stated fails: it speaks of every address range, and the code knows
  one. For the range from 0 to 0 a block at \<open>0x101FC100\<close> lies outside the range, so the
  filter of the specification keeps it; \<open>filterOutUserRegion\<close> drops it.
\<close>

theorem filterOutUserRegion_other_range_counterexample:
  "filter_by_range [block_at_addr 0x101fc100] 0 0 = [block_at_addr 0x101fc100]
   \<and> filterOutUserRegion [block_at_addr 0x101fc100] = []"
  by (simp add: filter_by_range_def filterOutUserRegion_def inUserRange_def block_at_addr_def)



section \<open>The blocks of the script image\<close>

lemma u32_bytes_0: "u32_bytes 0 = replicate 4 0"
  by (simp add: u32_bytes_def numeral_eq_Suc)

lemma createUf2Block_eq:
  assumes "length data = 256"
  shows "createUf2Block addr data = Inr (mk_block 0x2000 (of_nat addr) 256 0 0 0xe48bff56 data)"
  using assms
  apply (simp add: createUf2Block_def setUint32_def set_array_def overwrite_def mk_block_def u32_bytes_0 )
  apply (simp add: replicate_add [symmetric])
  done

lemma length_slice_256:
  "length img = 16384 \<Longrightarrow> i < 64 \<Longrightarrow> length (slice img (i * 256) (i * 256 + 256)) = 256"
  by (simp add: slice_def)

lemma makeBlocksLoop_eq:
  "length img = 16384 \<Longrightarrow> i \<le> 64 \<Longrightarrow>
   makeBlocksLoop img i acc = Inr (acc @ map (script_block img) [i..<64])"
proof (induction img i acc rule: makeBlocksLoop.induct)
  case (1 img i acc)
  show ?case
  proof (cases "i < 64")
    case False
    then have "\<not> i < USER_FLASH_SIZE div USER_BLOCK_SIZE"
      by (simp add: USER_FLASH_SIZE_def USER_BLOCK_SIZE_def)
    then have "makeBlocksLoop img i acc = Inr acc"
      by (subst makeBlocksLoop.simps) simp
    with False show ?thesis by simp
  next
    case True
    then have c: "i < USER_FLASH_SIZE div USER_BLOCK_SIZE"
      by (simp add: USER_FLASH_SIZE_def USER_BLOCK_SIZE_def)
    have b: "createUf2Block (USER_FLASH_START + i * 256) (slice img (i * 256) (i * 256 + 256)) =
        Inr (script_block img i)"
      using "1.prems" True by (simp add: createUf2Block_eq length_slice_256 script_block_def)
    have "makeBlocksLoop img (i + 1) (acc @ [script_block img i]) =
        Inr ((acc @ [script_block img i]) @ map (script_block img) [i + 1..<64])"
      using "1.prems" True by (intro "1.IH" [OF c b]) auto
    with c b True show ?thesis
      by (simp add: makeBlocksLoop.simps [of img i] upt_conv_Cons)
  qed
qed

lemma makeUserScriptUf2Blocks_eq:
  "makeUserScriptUf2Blocks img =
     (if length img \<noteq> 16384 then Inl Expected16KImage
      else Inr (map (script_block img) [0..<64]))"
  by (simp add: makeUserScriptUf2Blocks_def makeBlocksLoop_eq USER_FLASH_SIZE_def)




text \<open>
  Claim C4, as amended. \<open>makeUserScriptUf2Blocks\<close> fails, with the error "expected 16KB
  image", if and only if the length of the image is not exactly 16384; an image of 16384
  bytes is always split.
\<close>

theorem makeUserScriptUf2Blocks_fails_iff:
  "((\<exists>e. makeUserScriptUf2Blocks img = Inl e) \<longleftrightarrow> length img \<noteq> 16384)
   \<and> (length img \<noteq> 16384 \<longrightarrow> makeUserScriptUf2Blocks img = Inl Expected16KImage)
   \<and> (length img = 16384 \<longrightarrow> (\<exists>blocks. makeUserScriptUf2Blocks img = Inr blocks))"
  by (simp add: makeUserScriptUf2Blocks_eq)

text \<open>An image one byte short, and an image of the right size.\<close>

theorem makeUserScriptUf2Blocks_fails_iff_witness:
  "makeUserScriptUf2Blocks (replicate 16383 0xFF) = Inl Expected16KImage
   \<and> (\<exists>blocks. makeUserScriptUf2Blocks (replicate 16384 0xFF) = Inr blocks)"
  using makeUserScriptUf2Blocks_fails_iff [of "replicate 16383 0xFF"]
    makeUserScriptUf2Blocks_fails_iff [of "replicate 16384 0xFF"]
  by simp

text \<open>
  Claim C4 as it was stated fails: an image of 256 bytes has a length that is a multiple
  of the block payload size, and is rejected.
\<close>

theorem makeUserScriptUf2Blocks_multiple_of_256_counterexample:
  "length (replicate 256 (0xFF :: byte)) mod USER_BLOCK_SIZE = 0
   \<and> makeUserScriptUf2Blocks (replicate 256 0xFF) = Inl Expected16KImage"
  by (simp add: makeUserScriptUf2Blocks_eq USER_BLOCK_SIZE_def)

lemma script_block_length [simp]: "length img = 16384 \<Longrightarrow> j < 64 \<Longrightarrow> length (script_block img j) = 512"
  by (simp add: script_block_def length_slice_256)

lemma parseUf2_script_block:
  assumes "length img = 16384" "j < 64"
  shows "parseUf2 (script_block img j) =
     Inr [\<lparr> magicStart0 = 0x0a324655, magicStart1 = 0x9e5d5157, flags = 0x2000,
            targetAddr = of_nat (USER_FLASH_START + j * 256), payloadSize = 256,
            blockNo = 0, numBlocks = 0, familyId = 0xe48bff56,
            payload = slice img (j * 256) (j * 256 + 256) \<rparr>]"
proof -
  have l: "length (slice img (j * 256) (j * 256 + 256)) = 256"
    using assms by (rule length_slice_256)
  have pl: "take 256 (drop 32 (script_block img j)) = slice img (j * 256) (j * 256 + 256)"
    using mk_block_payload [where data = "slice img (j * 256) (j * 256 + 256)"] l
    by (simp add: script_block_def)
  have "decode_at (script_block img j) 0 =
      \<lparr> magicStart0 = 0x0a324655, magicStart1 = 0x9e5d5157, flags = 0x2000,
            targetAddr = of_nat (USER_FLASH_START + j * 256), payloadSize = 256,
            blockNo = 0, numBlocks = 0, familyId = 0xe48bff56,
            payload = slice img (j * 256) (j * 256 + 256) \<rparr>"
    using pl by (simp add: decode_at_def) (simp add: script_block_def mk_block_fields)
  moreover have "\<not> bad_magic_at (script_block img j) 0" "\<not> payload_overflow_at (script_block img j) 0"
    using l by (simp_all add: bad_magic_at_def payload_overflow_at_def script_block_def
        mk_block_fields mk_block_magic_end)
  ultimately show ?thesis
    using assms by (simp add: parseUf2_Inr_iff)
qed

lemma unat_of_nat_small: "n < 2 ^ 32 \<Longrightarrow> unat (of_nat n :: u32) = n"
  by (simp only: unat_of_nat) simp

lemma script_block_addr:
  assumes "j < 64"
  shows "unat (of_nat (USER_FLASH_START + j * 256) :: u32) = 0x101fc000 + j * 256"
proof -
  from assms have "USER_FLASH_START + j * 256 < 2 ^ 32" by (simp add: USER_FLASH_START_def)
  then have "unat (of_nat (USER_FLASH_START + j * 256) :: u32) = USER_FLASH_START + j * 256"
    by (rule unat_of_nat_small)
  then show ?thesis by (simp only: USER_FLASH_START_def)
qed

text \<open>
  Claim C6. On any image of 16384 bytes \<open>makeUserScriptUf2Blocks\<close> returns exactly 64
  blocks of 512 bytes. Read back by \<open>parseUf2\<close>, the \<open>i\<close>-th block has the target address
  \<open>0x101FC000 + i * 256\<close> (which fits in 32 bits), payload size 256, the flags word
  \<open>0x2000\<close> (bit 13, family present), the family identifier \<open>0xe48bff56\<close>, the \<open>i\<close>-th
  256-byte slice of the image as payload, and block number and block count 0.
\<close>

theorem makeUserScriptUf2Blocks_64_blocks:
  assumes "length img = 16384"
  shows "\<exists>blocks. makeUserScriptUf2Blocks img = Inr blocks \<and> length blocks = 64 \<and>
     (\<forall>i<64. length (blocks ! i) = 512 \<and>
        parseUf2 (blocks ! i) =
          Inr [\<lparr> magicStart0 = 0x0a324655, magicStart1 = 0x9e5d5157, flags = 0x2000,
                 targetAddr = of_nat (USER_FLASH_START + i * 256), payloadSize = 256,
                 blockNo = 0, numBlocks = 0, familyId = 0xe48bff56,
                 payload = slice img (i * 256) (i * 256 + 256) \<rparr>] \<and>
        unat (of_nat (USER_FLASH_START + i * 256) :: u32) = 0x101fc000 + i * 256 \<and>
        bit (0x2000 :: u32) 13 \<and>
        slice img (i * 256) (i * 256 + 256) = take 256 (drop (i * 256) img))"
proof -
  have "makeUserScriptUf2Blocks img = Inr (map (script_block img) [0..<64])"
    using assms by (simp add: makeUserScriptUf2Blocks_eq)
  moreover have "bit (0x2000 :: u32) 13" by simp
  ultimately show ?thesis
    using assms
    by (auto simp: parseUf2_script_block slice_def simp del: of_nat_add of_nat_mult
        intro!: script_block_addr)
qed

text \<open>The erased image, 16384 bytes of \<open>0xFF\<close>.\<close>

theorem makeUserScriptUf2Blocks_64_blocks_witness:
  "\<exists>blocks. makeUserScriptUf2Blocks (replicate 16384 0xFF) = Inr blocks \<and> length blocks = 64 \<and>
     (\<forall>i<64. length (blocks ! i) = 512 \<and>
        parseUf2 (blocks ! i) =
          Inr [\<lparr> magicStart0 = 0x0a324655, magicStart1 = 0x9e5d5157, flags = 0x2000,
                 targetAddr = of_nat (USER_FLASH_START + i * 256), payloadSize = 256,
                 blockNo = 0, numBlocks = 0, familyId = 0xe48bff56,
                 payload = replicate 256 0xFF \<rparr>])"
proof -
  have "slice (replicate 16384 (0xFF :: byte)) (i * 256) (i * 256 + 256) = replicate 256 0xFF"
    if "i < 64" for i
    using that by (simp add: slice_def)
  with makeUserScriptUf2Blocks_64_blocks [of "replicate 16384 0xFF"] show ?thesis
    by auto
qed



section \<open>The region image in closed form\<close>


lemma replicate_pred: "0 < m \<Longrightarrow> replicate m x = x # replicate (m - 1) x"
  by (cases m) simp_all

lemma build_status_word: "setUint32 (replicate USER_FLASH_SIZE 0xff) 0 s = Inr (u32_bytes s @ replicate 16380 0xff)"
  by (simp add: setUint32_def overwrite_def USER_FLASH_SIZE_def)

lemma build_name_bytes:
  assumes "length nb \<le> 31"
  shows "set_array (u32_bytes s @ replicate 16380 0xff) nb 4 =
     Inr (u32_bytes s @ nb @ replicate (16380 - length nb) 0xff)"
  using assms by (simp add: set_array_def overwrite_def)

lemma build_terminator:
  assumes "length nb \<le> 31"
  shows "(u32_bytes s @ nb @ replicate (16380 - length nb) 0xff)[4 + length nb := 0] =
     u32_bytes s @ nb @ [0] @ replicate (16379 - length nb) 0xff"
proof -
  from assms have "replicate (16380 - length nb) (0xff :: byte) =
      0xff # replicate (16379 - length nb) 0xff"
    by (subst replicate_pred) simp_all
  then show ?thesis by (simp add: list_update_append)
qed


lemma build_script_bytes:
  assumes "length nb \<le> 31" "length script \<le> 16348"
  shows "set_array (u32_bytes s @ nb @ [0] @ replicate (16379 - length nb) 0xff) script (4 + 32) =
     Inr (region_layout s nb script)"
proof -
  from assms(1) have "16379 - length nb = (31 - length nb) + 16348" by simp
  then have r: "replicate (16379 - length nb) (0xff :: byte) =
      replicate (31 - length nb) 0xff @ replicate 16348 0xff"
    by (simp only: replicate_add)
  let ?head = "u32_bytes s @ nb @ [0] @ replicate (31 - length nb) 0xff"
  have h: "length ?head = 36" using assms(1) by simp
  have "overwrite (?head @ replicate 16348 0xff) 36 script =
      ?head @ script @ replicate (16348 - length script) 0xff"
    unfolding overwrite_def using h assms(2) by (simp del: append_assoc replicate_add)
  then show ?thesis
    using assms h by (simp add: set_array_def r region_layout_def)
qed

lemma buildUserFlashImage_eq:
  assumes "length script \<le> 16348"
  shows "buildUserFlashImage script name v =
     Inr (region_layout (status_of v (length script)) (take 31 (TextEncoder_encode name)) script)"
proof -
  let ?nb = "take 31 (TextEncoder_encode name)"
  have n: "length ?nb \<le> 31" "min (length (TextEncoder_encode name)) 31 = length ?nb"
    by simp_all
  have sl: "slice (TextEncoder_encode name) 0 (length ?nb) = ?nb"
    by (auto simp: slice_def min_def)
  from assms have "\<not> length script > MAX_SCRIPT_LEN"
    by (simp add: MAX_SCRIPT_LEN_def USER_FLASH_SIZE_def)
  then show ?thesis
    unfolding buildUserFlashImage_def Let_def n(2) sl status_of_def [symmetric]
    using assms
    by (simp only: if_False build_status_word andThen_simps build_name_bytes [OF n(1)] build_terminator [OF n(1)] build_script_bytes [OF n(1)])
qed




section \<open>Serialising and renumbering\<close>


lemma length_renumbered [simp]: "length b = 512 \<Longrightarrow> length (renumbered i n b) = 512"
  by (simp add: renumbered_def)

lemma setUint32_renumber:
  assumes "length b = 512"
  shows "setUint32 b 20 (of_nat i) = Inr (overwrite b 20 (u32_bytes (of_nat i)))"
    and "setUint32 (overwrite b 20 (u32_bytes (of_nat i))) 24 (of_nat n) = Inr (renumbered i n b)"
  using assms by (simp_all add: setUint32_def renumbered_def)

lemma serializeLoop_eq:
  assumes "\<forall>b \<in> set bl. length b = 512"
  shows "i \<le> length bl \<Longrightarrow> length pre = i * 512 \<Longrightarrow>
     serializeLoop bl (length bl) i (pre @ replicate ((length bl - i) * 512) 0) =
       Inr (pre @ concat (map (\<lambda>j. renumbered j (length bl) (bl ! j)) [i..<length bl]))"
proof (induction "length bl - i" arbitrary: i pre)
  case 0
  then have "\<not> i < length bl" by simp
  then have "serializeLoop bl (length bl) i (pre @ replicate ((length bl - i) * 512) 0) =
      Inr (pre @ replicate ((length bl - i) * 512) 0)"
    by (subst serializeLoop.simps) simp
  with 0 show ?case by simp
next
  case (Suc d)
  then have lt: "i < length bl" by simp
  with assms have len: "length (bl ! i) = 512" by simp
  let ?blk = "renumbered i (length bl) (bl ! i)"
  let ?out = "pre @ replicate ((length bl - i) * 512) 0"
  from lt have split: "(length bl - i) * 512 = 512 + (length bl - (i + 1)) * 512"
    by (simp add: algebra_simps)
  have fits: "i * 512 + length ?blk \<le> length ?out"
    using Suc.prems lt len by (simp add: split)
  have ov: "overwrite ?out (i * 512) ?blk =
      (pre @ ?blk) @ replicate ((length bl - (i + 1)) * 512) 0"
    using Suc.prems len by (simp add: overwrite_def split replicate_add)
  have set: "set_array ?out ?blk (i * 512) =
      Inr ((pre @ ?blk) @ replicate ((length bl - (i + 1)) * 512) 0)"
    using fits ov by (simp add: set_array_def)
  have IH: "serializeLoop bl (length bl) (i + 1)
       ((pre @ ?blk) @ replicate ((length bl - (i + 1)) * 512) 0) =
      Inr ((pre @ ?blk) @ concat (map (\<lambda>j. renumbered j (length bl) (bl ! j)) [i + 1..<length bl]))"
    using Suc.hyps(2) Suc.prems lt len
    by (intro Suc.hyps(1)) (simp_all add: algebra_simps)
  have "serializeLoop bl (length bl) i ?out =
      serializeLoop bl (length bl) (i + 1)
        ((pre @ ?blk) @ replicate ((length bl - (i + 1)) * 512) 0)"
    using lt set
    by (subst serializeLoop.simps) (simp add: setUint32_renumber [OF len])
  with IH lt show ?case by (simp add: upt_conv_Cons)
qed

lemma serializeAndRenumber_eq:
  assumes "\<forall>b \<in> set blocks. length b = 512"
  shows "serializeAndRenumber blocks = Inr (serialized blocks)"
  using serializeLoop_eq [OF assms, of 0 "[]"]
  by (simp add: serializeAndRenumber_def serialized_def Let_def)

lemma concat_blocks:
  assumes "\<forall>x \<in> set xss. length x = 512"
  shows length_concat_blocks: "length (concat xss) = 512 * length xss"
    and nth_concat_blocks: "k < length xss \<Longrightarrow> j < 512 \<Longrightarrow> concat xss ! (512 * k + j) = xss ! k ! j"
    and chunk_concat_blocks: "k < length xss \<Longrightarrow> chunk (concat xss) k = xss ! k"
  using assms
proof (induction xss arbitrary: k)
  case Nil
  { case 1 show ?case by simp }
  { case 2 then show ?case by simp }
  { case 3 then show ?case by simp }
next
  case (Cons x xss)
  { case 1 then show ?case using Cons.IH(1) by simp }
  { case 2 then show ?case using Cons.IH(2) [of "k - 1"]
      by (cases k) (simp_all add: nth_append) }
  { case 3 then show ?case using Cons.IH(3) [of "k - 1"]
      by (cases k) (simp_all add: chunk_def slice_def) }
qed



lemma nth_renumbered:
  assumes "length b = 512" "k < 512" "k < 20 \<or> 28 \<le> k"
  shows "renumbered i n b ! k = b ! k"
  using assms by (auto simp: renumbered_def nth_overwrite)

lemma u32_at_renumbered:
  assumes "length b = 512"
  shows "u32_at (renumbered i n b) 20 = of_nat i"
    and "u32_at (renumbered i n b) 24 = of_nat n"
  using assms
  by (simp_all add: renumbered_def u32_at_overwrite_same u32_at_overwrite_other)

lemma length_chunk: "512 * k + 512 \<le> length bs \<Longrightarrow> length (chunk bs k) = 512"
  by (simp add: chunk_def slice_def)

lemma nth_chunk: "512 * k + 512 \<le> length bs \<Longrightarrow> j < 512 \<Longrightarrow> chunk bs k ! j = bs ! (512 * k + j)"
  by (simp add: chunk_def slice_def)

lemma u32_at_chunk:
  "512 * k + 512 \<le> length bs \<Longrightarrow> j + 4 \<le> 512 \<Longrightarrow> u32_at (chunk bs k) j = u32_at bs (512 * k + j)"
  by (simp add: u32_at_def nth_chunk add.assoc)

lemma serialized_facts:
  assumes "\<forall>b \<in> set blocks. length b = 512"
  shows length_serialized: "length (serialized blocks) = 512 * length blocks"
    and chunk_serialized:
      "k < length blocks \<Longrightarrow> chunk (serialized blocks) k = renumbered k (length blocks) (blocks ! k)"
proof -
  let ?xss = "map (\<lambda>j. renumbered j (length blocks) (blocks ! j)) [0..<length blocks]"
  have all: "\<forall>x \<in> set ?xss. length x = 512" using assms by auto
  show "length (serialized blocks) = 512 * length blocks"
    using length_concat_blocks [OF all] by (simp add: serialized_def)
  show "chunk (serialized blocks) k = renumbered k (length blocks) (blocks ! k)"
    if "k < length blocks"
    using chunk_concat_blocks [OF all, of k] that by (simp add: serialized_def)
qed

lemma chunk_fits: "k < n \<Longrightarrow> length bs = 512 * n \<Longrightarrow> 512 * k + 512 \<le> length bs"
  by (cases n) (auto simp: less_Suc_eq_le)

text \<open>
  Claim C5, as amended. \<open>serializeAndRenumber\<close> has no check for an empty result: applied
  to two empty lists of blocks it returns the empty buffer, and applied to any lists of
  512-byte blocks it returns a buffer of 512 bytes for each block, without error.
\<close>

theorem serializeAndRenumber_never_fails:
  "serializeAndRenumber ([] @ []) = Inr []
   \<and> ((\<forall>b \<in> set (baseBlocks @ scriptBlocks). length b = 512) \<longrightarrow>
        (\<exists>out. serializeAndRenumber (baseBlocks @ scriptBlocks) = Inr out \<and>
               length out = 512 * (length baseBlocks + length scriptBlocks)))"
proof (intro conjI impI)
  show "serializeAndRenumber ([] @ []) = Inr []"
    using serializeAndRenumber_eq [of "[]"] by (simp add: serialized_def)
next
  assume a: "\<forall>b \<in> set (baseBlocks @ scriptBlocks). length b = 512"
  show "\<exists>out. serializeAndRenumber (baseBlocks @ scriptBlocks) = Inr out \<and>
               length out = 512 * (length baseBlocks + length scriptBlocks)"
    using serializeAndRenumber_eq [OF a] length_serialized [OF a] by simp
qed

text \<open>One base block and two script blocks.\<close>

theorem serializeAndRenumber_never_fails_witness:
  "\<exists>out. serializeAndRenumber ([replicate 512 1] @ [replicate 512 2, replicate 512 3]) = Inr out \<and>
      length out = 512 * (length [replicate 512 (1 :: byte)] + length [replicate 512 (2 :: byte), replicate 512 3])"
  using serializeAndRenumber_never_fails [of "[replicate 512 1]" "[replicate 512 2, replicate 512 3]"]
  by simp

text \<open>
  Claim C5 as it was stated fails: the merge of two empty lists is not an error, it is
  the empty buffer.
\<close>

theorem serializeAndRenumber_empty_counterexample:
  "serializeAndRenumber ([] @ []) = Inr []"
  using serializeAndRenumber_eq [of "[]"] by (simp add: serialized_def)

text \<open>
  Claim C8. For \<open>n\<close> blocks of 512 bytes in all, \<open>n\<close> positive and representable in the
  32-bit count field, \<open>serializeAndRenumber\<close> returns \<open>n\<close> slices of which the \<open>i\<close>-th has
  block number \<open>i\<close> and block count \<open>n\<close>.
\<close>

theorem serializeAndRenumber_numbering:
  assumes "\<forall>b \<in> set (baseBlocks @ scriptBlocks). length b = 512"
    and "baseBlocks @ scriptBlocks \<noteq> []"
    and "length (baseBlocks @ scriptBlocks) < 2 ^ 32"
  shows "\<exists>out. serializeAndRenumber (baseBlocks @ scriptBlocks) = Inr out \<and>
     length out = 512 * length (baseBlocks @ scriptBlocks) \<and>
     (\<forall>i<length (baseBlocks @ scriptBlocks).
        getUint32 (chunk out i) 20 = Inr (of_nat i) \<and>
        getUint32 (chunk out i) 24 = Inr (of_nat (length (baseBlocks @ scriptBlocks))) \<and>
        unat (u32_at out (512 * i + 20)) = i \<and>
        unat (u32_at out (512 * i + 24)) = length (baseBlocks @ scriptBlocks))"
proof -
  let ?bl = "baseBlocks @ scriptBlocks"
  let ?out = "serialized ?bl"
  have len: "length ?out = 512 * length ?bl" by (rule length_serialized [OF assms(1)])
  have fields: "getUint32 (chunk ?out i) 20 = Inr (of_nat i) \<and>
        getUint32 (chunk ?out i) 24 = Inr (of_nat (length ?bl)) \<and>
        unat (u32_at ?out (512 * i + 20)) = i \<and>
        unat (u32_at ?out (512 * i + 24)) = length ?bl" if i: "i < length ?bl" for i
  proof -
    from i assms(1) have b: "length (?bl ! i) = 512" by (metis nth_mem)
    have c: "chunk ?out i = renumbered i (length ?bl) (?bl ! i)"
      by (rule chunk_serialized [OF assms(1) i])
    have fit: "512 * i + 512 \<le> length ?out" using i len by (rule chunk_fits)
    have no: "u32_at (chunk ?out i) 20 = of_nat i" and num: "u32_at (chunk ?out i) 24 = of_nat (length ?bl)"
      unfolding c by (rule u32_at_renumbered [OF b])+
    from i assms(3) have small: "i < 2 ^ 32" by simp
    have "unat (u32_at ?out (512 * i + 20)) = i"
      using no u32_at_chunk [OF fit, of 20] unat_of_nat_small [OF small] by simp
    moreover have "unat (u32_at ?out (512 * i + 24)) = length ?bl"
      using num u32_at_chunk [OF fit, of 24] unat_of_nat_small [OF assms(3)] by simp
    moreover have "length (chunk ?out i) = 512" unfolding c using b by simp
    ultimately show ?thesis using no num by (simp add: getUint32_def)
  qed
  show ?thesis
    using serializeAndRenumber_eq [OF assms(1)] len fields by blast
qed


text \<open>One base block followed by one script block.\<close>

theorem serializeAndRenumber_numbering_witness:
  "\<exists>out. serializeAndRenumber ([replicate 512 1] @ [replicate 512 2]) = Inr out \<and>
      length out = 1024 \<and>
      unat (u32_at out 20) = 0 \<and> unat (u32_at out 24) = 2 \<and>
      unat (u32_at out (512 + 20)) = 1 \<and> unat (u32_at out (512 + 24)) = 2"
proof -
  have a: "\<forall>b \<in> set ([replicate 512 1] @ [replicate 512 (2 :: byte)]). length b = 512"
    and b: "[replicate 512 1] @ [replicate 512 (2 :: byte)] \<noteq> []"
    and c: "length ([replicate 512 1] @ [replicate 512 (2 :: byte)]) < 2 ^ 32"
    by simp_all
  from serializeAndRenumber_numbering [OF a b c] obtain out where
    out: "serializeAndRenumber ([replicate 512 1] @ [replicate 512 2]) = Inr out"
      "length out = 512 * length ([replicate 512 1] @ [replicate 512 (2 :: byte)])"
      "\<forall>i<length ([replicate 512 1] @ [replicate 512 (2 :: byte)]).
         unat (u32_at out (512 * i + 20)) = i \<and>
         unat (u32_at out (512 * i + 24)) = length ([replicate 512 1] @ [replicate 512 (2 :: byte)])"
    by blast
  from out(3) [rule_format, of 0]
  have z: "unat (u32_at out 20) = 0 \<and> unat (u32_at out 24) = 2" by simp
  from out(3) [rule_format, of 1]
  have o: "unat (u32_at out (512 + 20)) = 1 \<and> unat (u32_at out (512 + 24)) = 2" by simp
  from out(1,2) z o show ?thesis by (intro exI [of _ out]) simp
qed


section \<open>The full transform in closed form\<close>


lemma slice_is_chunk: "512 dvd off \<Longrightarrow> slice bs off (off + 512) = chunk bs (off div 512)"
  by (auto simp: chunk_def elim!: dvdE)

lemma baseBlocksLoop_eq:
  "512 dvd length bs \<Longrightarrow> 512 dvd off \<Longrightarrow>
   baseBlocksLoop bs off acc =
     Inr (acc @ filter (\<lambda>c. \<not> inUserRange (u32_at c 12))
                  (map (chunk bs) [off div 512..<length bs div 512]))"
proof (induction bs off acc rule: baseBlocksLoop.induct)
  case (1 bs off acc)
  show ?case
  proof (cases "off < length bs")
    case False
    then have "length bs div 512 \<le> off div 512" by (simp add: div_le_mono)
    moreover from False have "baseBlocksLoop bs off acc = Inr acc"
      by (subst baseBlocksLoop.simps) simp
    ultimately show ?thesis by simp
  next
    case True
    with "1.prems" have fit: "off + 512 \<le> length bs" by (simp add: aligned_step)
    let ?c = "slice bs off (off + 512)"
    have c: "?c = chunk bs (off div 512)" using "1.prems"(2) by (rule slice_is_chunk)
    have lc: "length ?c = 512" using fit by (simp add: slice_def)
    then have g: "getUint32 ?c 12 = Inr (u32_at ?c 12)" by (simp add: getUint32_def)
    let ?acc = "if \<not> inUserRange (u32_at ?c 12) then acc @ [?c] else acc"
    have lt: "off div 512 < length bs div 512"
      using fit "1.prems"(2) by (auto simp: less_eq_div_iff_mult_less_eq elim!: dvdE)
    have IH: "baseBlocksLoop bs (off + 512) ?acc =
        Inr (?acc @ filter (\<lambda>c. \<not> inUserRange (u32_at c 12))
                  (map (chunk bs) [(off + 512) div 512..<length bs div 512]))"
      using "1.prems" by (intro "1.IH" [OF True refl g]) auto
    have "baseBlocksLoop bs off acc = baseBlocksLoop bs (off + 512) ?acc"
      using True g by (subst baseBlocksLoop.simps) (simp add: Let_def)
    with IH lt "1.prems"(2) show ?thesis
      by (simp add: upt_conv_Cons c)
  qed
qed

lemma baseBlocksLoop_survivors:
  "length bs mod 512 = 0 \<Longrightarrow> baseBlocksLoop bs 0 [] = Inr (survivors bs)"
  using baseBlocksLoop_eq [of bs 0 "[]"] by (simp add: survivors_def dvd_eq_mod_eq_0)

lemma length_region_layout:
  "length nb \<le> 31 \<Longrightarrow> length script \<le> 16348 \<Longrightarrow> length (region_layout s nb script) = 16384"
  by (simp add: region_layout_def)

lemma survivors_512: "length bs mod 512 = 0 \<Longrightarrow> \<forall>c \<in> set (survivors bs). length c = 512"
proof -
  assume "length bs mod 512 = 0"
  then have "512 * k + 512 \<le> length bs" if "k < length bs div 512" for k
    using that by (auto simp: dvd_eq_mod_eq_0 [symmetric] elim!: dvdE)
  then show ?thesis by (auto simp: survivors_def length_chunk)
qed

lemma injectScriptIntoBaseUf2_eq:
  assumes "buildUserFlashImage (TextEncoder_encode script) (deriveScriptName script) 0x040 = Inr img"
    and "length img = 16384"
    and "parseUf2 base = Inr parsed"
  shows "injectScriptIntoBaseUf2 base script =
     Inr (serialized (survivors base @ map (script_block img) [0..<64]))"
proof -
  from assms(3) have m: "length base mod 512 = 0" by (simp add: parseUf2_Inr_iff)
  have all: "\<forall>b \<in> set (survivors base @ map (script_block img) [0..<64]). length b = 512"
    using survivors_512 [OF m] assms(2) by auto
  show ?thesis
    unfolding injectScriptIntoBaseUf2_def Let_def
    by (simp add: assms makeUserScriptUf2Blocks_eq baseBlocksLoop_survivors [OF m]
        serializeAndRenumber_eq [OF all])
qed




lemma demo_script_name: "deriveScriptName demo_script = [0x64, 0x65, 0x6D, 0x6F]"
  by (simp add: deriveScriptName_def demo_script_def trim_def is_js_space_def)

lemma demo_script_utf8:
  "TextEncoder_encode demo_script =
     [0x2D, 0x2D, 0x2D, 0x64, 0x65, 0x6D, 0x6F, 0x0A,
      0x70, 0x72, 0x69, 0x6E, 0x74, 0x28, 0x31, 0x29, 0x0A]"
  by (simp add: TextEncoder_encode_def demo_script_def scalar_of_unit_def
      is_high_surrogate_def is_low_surrogate_def utf8_of_code_point_def)

lemma demo_name_utf8: "TextEncoder_encode [0x64, 0x65, 0x6D, 0x6F] = [0x64, 0x65, 0x6D, 0x6F]"
  by (simp add: TextEncoder_encode_def scalar_of_unit_def
      is_high_surrogate_def is_low_surrogate_def utf8_of_code_point_def)

lemma demo_status: "status_of 0x040 17 = 0x0011040A"
  by (simp add: status_of_def)

lemma status_fields:
  "0x0011040A AND (0xF :: u32) = 0xA" "drop_bit 16 (0x0011040A :: u32) = 17"
  by simp_all

lemma region_layout_status: "u32_at (region_layout s nb script) 0 = s"
  by (simp add: region_layout_def)

lemma region_layout_name:
  assumes "length nb \<le> 31"
  shows "take 32 (drop 4 (region_layout s nb script)) = nb @ [0] @ replicate (31 - length nb) 0xff"
proof -
  let ?f = "nb @ [0] @ replicate (31 - length nb) 0xff"
  let ?r = "script @ replicate (16348 - length script) 0xff"
  have l: "length ?f = 32" using assms by simp
  have "drop 4 (region_layout s nb script) = ?f @ ?r"
    by (simp add: region_layout_def)
  then have "take 32 (drop 4 (region_layout s nb script)) = take (length ?f) (?f @ ?r)"
    by (simp only: l)
  then show ?thesis by (simp only: append_eq_conv_conj [THEN iffD1, OF refl, THEN conjunct1, symmetric])
qed

lemma nth_serialized:
  assumes "\<forall>b \<in> set blocks. length b = 512" "j < length blocks" "k < 512"
  shows "serialized blocks ! (512 * j + k) = renumbered j (length blocks) (blocks ! j) ! k"
proof -
  have "512 * j + 512 \<le> length (serialized blocks)"
    using assms(2) length_serialized [OF assms(1)] by (rule chunk_fits)
  from nth_chunk [OF this assms(3)] chunk_serialized [OF assms(1,2)] show ?thesis by simp
qed

lemma survivors_by_index:
  assumes "parseUf2 base = Inr parsed"
  shows "survivors base =
     map (chunk base)
       (filter (\<lambda>i. \<not> inUserRange (targetAddr (parsed ! i))) [0..<length base div 512])"
proof -
  from assms have m: "length base mod 512 = 0"
    and p: "parsed = map (\<lambda>k. decode_at base (512 * k)) [0..<length base div 512]"
    by (simp_all add: parseUf2_Inr_iff)
  have "u32_at (chunk base i) 12 = targetAddr (parsed ! i)" if "i < length base div 512" for i
  proof -
    from that m have "512 * i + 512 \<le> length base"
      by (auto simp: dvd_eq_mod_eq_0 [symmetric] elim!: dvdE)
    from u32_at_chunk [OF this, of 12] that show ?thesis by (simp add: p decode_at_def)
  qed
  then have "filter (\<lambda>i. \<not> inUserRange (u32_at (chunk base i) 12)) [0..<length base div 512] =
      filter (\<lambda>i. \<not> inUserRange (targetAddr (parsed ! i))) [0..<length base div 512]"
    by (intro filter_cong) auto
  then show ?thesis by (simp add: survivors_def filter_map comp_def)
qed

text \<open>
  Claim C10. Whenever the base image parses and the script fits, the transform succeeds,
  and its output starts with the surviving base blocks: the raw 512-byte slices of the
  base image whose target address is outside the user region, in their order. Each of
  them is reproduced byte for byte at every offset except 20 to 27, where the block number
  and the block count are rewritten; nothing of them is rebuilt from the parsed fields.
\<close>

theorem injectScriptIntoBaseUf2_preserves_base:
  assumes "parseUf2 base = Inr parsed" and "length (TextEncoder_encode script) \<le> 16348"
  shows "\<exists>out. injectScriptIntoBaseUf2 base script = Inr out \<and>
     length out = 512 * (length (survivors base) + 64) \<and>
     survivors base =
       map (chunk base)
         (filter (\<lambda>i. \<not> inUserRange (targetAddr (parsed ! i))) [0..<length base div 512]) \<and>
     (\<forall>j<length (survivors base). \<forall>k<512.
        k < 20 \<or> 28 \<le> k \<longrightarrow> out ! (512 * j + k) = survivors base ! j ! k)"
proof -
  let ?img = "region_layout (status_of 0x040 (length (TextEncoder_encode script)))
      (take 31 (TextEncoder_encode (deriveScriptName script))) (TextEncoder_encode script)"
  let ?all = "survivors base @ map (script_block ?img) [0..<64]"
  have li: "length ?img = 16384" using assms(2) by (simp add: length_region_layout)
  from assms(1) have m: "length base mod 512 = 0" by (simp add: parseUf2_Inr_iff)
  have all: "\<forall>b \<in> set ?all. length b = 512"
    using survivors_512 [OF m] li by auto
  have out: "injectScriptIntoBaseUf2 base script = Inr (serialized ?all)"
    using buildUserFlashImage_eq [OF assms(2)] li assms(1) by (rule injectScriptIntoBaseUf2_eq)
  have len: "length (serialized ?all) = 512 * (length (survivors base) + 64)"
    using length_serialized [OF all] by simp
  have "serialized ?all ! (512 * j + k) = survivors base ! j ! k"
    if "j < length (survivors base)" "k < 512" "k < 20 \<or> 28 \<le> k" for j k
  proof -
    from that(1) have j: "j < length ?all" by simp
    from that(1) have e: "?all ! j = survivors base ! j" by (simp add: nth_append)
    from that(1) survivors_512 [OF m] have l: "length (survivors base ! j) = 512" by simp
    show ?thesis
      using nth_serialized [OF all j that(2)] nth_renumbered [OF l that(2,3)] e by simp
  qed
  with out len survivors_by_index [OF assms(1)] show ?thesis by blast
qed




lemma chunks_of_concat:
  assumes "\<forall>x \<in> set xss. length x = 512"
  shows "map (chunk (concat xss)) [0..<length xss] = xss"
proof -
  have "map (chunk (concat xss)) [0..<length xss] = map (\<lambda>i. xss ! i) [0..<length xss]"
    using chunk_concat_blocks [OF assms] by (intro map_cong) auto
  then show ?thesis by (simp add: map_nth)
qed

lemma survivors_concat:
  assumes "\<forall>x \<in> set xss. length x = 512"
  shows "survivors (concat xss) = filter (\<lambda>c. \<not> inUserRange (u32_at c 12)) xss"
  using chunks_of_concat [OF assms] length_concat_blocks [OF assms]
  by (simp add: survivors_def)

lemma parseUf2_concat:
  assumes "\<forall>x \<in> set xss. length x = 512 \<and> \<not> bad_magic_at x 0 \<and> \<not> payload_overflow_at x 0"
  shows "parseUf2 (concat xss) = Inr (map (\<lambda>k. decode_at (concat xss) (512 * k)) [0..<length xss])"
proof -
  from assms have all: "\<forall>x \<in> set xss. length x = 512" by blast
  have len: "length (concat xss) = 512 * length xss" by (rule length_concat_blocks [OF all])
  have "\<not> bad_magic_at (concat xss) (512 * k) \<and> \<not> payload_overflow_at (concat xss) (512 * k)"
    if k: "k < length xss" for k
  proof -
    have fit: "512 * k + 512 \<le> length (concat xss)" using k len by (rule chunk_fits)
    have c: "chunk (concat xss) k = xss ! k" by (rule chunk_concat_blocks [OF all k])
    from k assms have ok: "\<not> bad_magic_at (xss ! k) 0" "\<not> payload_overflow_at (xss ! k) 0"
      by simp_all
    have "u32_at (concat xss) (512 * k + j) = u32_at (xss ! k) j" if "j + 4 \<le> 512" for j
      using u32_at_chunk [OF fit that] c by simp
    from this [of 0] this [of 4] this [of 508] this [of 16] ok show ?thesis
      by (simp add: bad_magic_at_def payload_overflow_at_def)
  qed
  then show ?thesis using len by (simp add: parseUf2_Inr_iff)
qed

lemma mk_block_ok:
  assumes "length data \<le> 476" "sz \<le> 476"
  shows "\<not> bad_magic_at (mk_block fl addr sz no num fam data) 0"
    and "\<not> payload_overflow_at (mk_block fl addr sz no num fam data) 0"
  using assms
  by (simp_all add: bad_magic_at_def payload_overflow_at_def mk_block_fields mk_block_magic_end)

lemma plain_block_ok:
  "length (plain_block i) = 512" "\<not> bad_magic_at (plain_block i) 0"
  "\<not> payload_overflow_at (plain_block i) 0"
  by (simp_all add: plain_block_def mk_block_ok)

lemma stale_block_ok:
  "length stale_block = 512" "\<not> bad_magic_at stale_block 0" "\<not> payload_overflow_at stale_block 0"
  by (simp_all add: stale_block_def mk_block_ok)

lemma plain_block_outside:
  assumes "i < 128"
  shows "\<not> (0x101fc000 \<le> u32_at (plain_block i) 12 \<and> u32_at (plain_block i) 12 \<le> 0x101fffff)"
proof -
  from assms have "unat (of_nat (0x10000000 + 256 * i) :: u32) = 0x10000000 + 256 * i"
    by (intro unat_of_nat_small) simp
  with assms have "\<not> (0x101fc000 :: u32) \<le> of_nat (0x10000000 + 256 * i)"
    by (simp only: word_le_nat_alt) simp
  then show ?thesis by (simp only: plain_block_def mk_block_fields) simp
qed

lemma stale_block_inside: "inUserRange (u32_at stale_block 12)"
  by (simp add: stale_block_def mk_block_fields inUserRange_def)

text \<open>
  A base image of two blocks, the second one inside the user region and dropped, with the
  script of the end-to-end scenario.
\<close>

theorem injectScriptIntoBaseUf2_preserves_base_witness:
  "\<exists>out. injectScriptIntoBaseUf2 (plain_block 0 @ stale_block) demo_script = Inr out \<and>
      length out = 512 * 65 \<and>
      survivors (plain_block 0 @ stale_block) = [plain_block 0] \<and>
      out ! 12 = plain_block 0 ! 12 \<and> out ! 511 = plain_block 0 ! 511"
proof -
  let ?base = "plain_block 0 @ stale_block"
  have c: "concat [plain_block 0, stale_block] = ?base" by simp
  have "\<forall>x \<in> set [plain_block 0, stale_block].
      length x = 512 \<and> \<not> bad_magic_at x 0 \<and> \<not> payload_overflow_at x 0"
    by (simp add: plain_block_ok stale_block_ok)
  from parseUf2_concat [OF this] obtain parsed where p: "parseUf2 ?base = Inr parsed"
    unfolding c ..
  have s: "length (TextEncoder_encode demo_script) \<le> 16348"
    by (simp add: demo_script_utf8)
  have "\<not> inUserRange (u32_at (plain_block 0) 12)"
    using plain_block_outside [of 0] by (simp add: inUserRange_def)
  then have "survivors (concat [plain_block 0, stale_block]) = [plain_block 0]"
    using survivors_concat [of "[plain_block 0, stale_block]"] stale_block_inside
    by (simp add: plain_block_ok stale_block_ok)
  then have sv: "survivors ?base = [plain_block 0]" unfolding c .
  from injectScriptIntoBaseUf2_preserves_base [OF p s] obtain out where
    out: "injectScriptIntoBaseUf2 ?base demo_script = Inr out"
      "length out = 512 * (length (survivors ?base) + 64)"
      "\<forall>j<length (survivors ?base). \<forall>k<512.
        k < 20 \<or> 28 \<le> k \<longrightarrow> out ! (512 * j + k) = survivors ?base ! j ! k"
    by blast
  from out(3) [unfolded sv, rule_format, of 0 12] out(3) [unfolded sv, rule_format, of 0 511]
  have "out ! 12 = plain_block 0 ! 12" "out ! 511 = plain_block 0 ! 511"
    by simp_all
  with out(1,2) sv show ?thesis by (intro exI [of _ out]) simp
qed



section \<open>The name field\<close>


lemma buildUserFlashImage_name_field:
  assumes "length scriptUtf8 \<le> 16348"
  shows "\<exists>img. buildUserFlashImage scriptUtf8 name versionWord = Inr img \<and>
     length img = 16384 \<and>
     take 32 (drop 4 img) =
       take 31 (TextEncoder_encode name) @ [0] @
       replicate (31 - min (length (TextEncoder_encode name)) 31) 0xff"
  using buildUserFlashImage_eq [OF assms, of name versionWord]
    region_layout_name [of "take 31 (TextEncoder_encode name)"]
    length_region_layout [of "take 31 (TextEncoder_encode name)" scriptUtf8] assms
  by simp

lemma take_Suc_append_one: "take (Suc (length xs)) (xs @ [y] @ zs) = xs @ [y]"
  by simp

text \<open>
  Claim C3, as amended. For every script that fits and every name, \<open>buildUserFlashImage\<close>
  writes at offset 4 the first \<open>min(length, 31)\<close> bytes of the UTF-8 encoding of the name,
  followed by a NUL. The cut is made at byte 31 whatever character it falls in; a name
  whose encoding has at most 31 bytes is written whole.
\<close>

theorem buildUserFlashImage_name_bytes:
  assumes "length scriptUtf8 \<le> 16348"
  shows "\<exists>img. buildUserFlashImage scriptUtf8 name versionWord = Inr img \<and>
     take (Suc (min (length (TextEncoder_encode name)) 31)) (drop 4 img) =
       take 31 (TextEncoder_encode name) @ [0] \<and>
     (length (TextEncoder_encode name) \<le> 31 \<longrightarrow>
        take (Suc (length (TextEncoder_encode name))) (drop 4 img) =
          TextEncoder_encode name @ [0])"
proof -
  let ?enc = "TextEncoder_encode name"
  let ?n = "min (length ?enc) 31"
  from buildUserFlashImage_name_field [OF assms, of name versionWord] obtain img where
    img: "buildUserFlashImage scriptUtf8 name versionWord = Inr img"
      "take 32 (drop 4 img) = take 31 ?enc @ [0] @ replicate (31 - ?n) 0xff"
    by blast
  have "take (Suc ?n) (drop 4 img) = take (Suc ?n) (take 32 (drop 4 img))"
    by (simp add: min_def)
  also have "\<dots> = take 31 ?enc @ [0]"
  proof -
    have "take (Suc (length (take 31 ?enc)))
        (take 31 ?enc @ [0] @ replicate (31 - ?n) 0xff) = take 31 ?enc @ [0]"
      by (rule take_Suc_append_one)
    then show ?thesis unfolding img(2) by (simp only: length_take)
  qed
  finally have cut: "take (Suc ?n) (drop 4 img) = take 31 ?enc @ [0]" .
  then have "length ?enc \<le> 31 \<longrightarrow> take (Suc (length ?enc)) (drop 4 img) = ?enc @ [0]"
    by (auto simp: min_def)
  with img(1) cut show ?thesis by blast
qed

lemma accented_name_utf8:
  "TextEncoder_encode accented_name =
     [0xC3, 0xA9, 0xC3, 0xA9, 0xC3, 0xA9, 0xC3, 0xA9, 0xC3, 0xA9, 0xC3, 0xA9, 0xC3, 0xA9, 0xC3, 0xA9,
      0xC3, 0xA9, 0xC3, 0xA9, 0xC3, 0xA9, 0xC3, 0xA9, 0xC3, 0xA9, 0xC3, 0xA9, 0xC3, 0xA9, 0xC3, 0xA9]"
  by (simp add: TextEncoder_encode_def accented_name_def scalar_of_unit_def
      is_high_surrogate_def is_low_surrogate_def utf8_of_code_point_def)

lemma accented_name_field:
  "map_sum id (take 32 \<circ> drop 4) (buildUserFlashImage [] accented_name 0x040) =
     Inr [0xC3, 0xA9, 0xC3, 0xA9, 0xC3, 0xA9, 0xC3, 0xA9, 0xC3, 0xA9, 0xC3, 0xA9, 0xC3, 0xA9, 0xC3, 0xA9,
          0xC3, 0xA9, 0xC3, 0xA9, 0xC3, 0xA9, 0xC3, 0xA9, 0xC3, 0xA9, 0xC3, 0xA9, 0xC3, 0xA9, 0xC3, 0]"
proof -
  from buildUserFlashImage_name_field [of "[]" accented_name "0x040"] obtain img where
    img: "buildUserFlashImage [] accented_name 0x040 = Inr img"
      "take 32 (drop 4 img) = take 31 (TextEncoder_encode accented_name) @ [0] @
         replicate (31 - min (length (TextEncoder_encode accented_name)) 31) 0xff"
    by auto
  show ?thesis
    unfolding img(1) using img(2) by (simp add: accented_name_utf8)
qed


lemma length_concat_take:
  assumes "\<forall>c \<in> set cps. length (f c) = 2"
  shows "length (concat (map f (take k cps))) = 2 * min k (length cps)"
  using assms
proof (induction cps arbitrary: k)
  case Nil
  then show ?case by simp
next
  case (Cons c cps)
  then show ?case by (cases k) simp_all
qed

lemma accented_boundaries_even: "k \<in> set (utf8_boundaries accented_name) \<Longrightarrow> even k"
proof -
  have "\<forall>c \<in> set (code_points accented_name). length (utf8_of_code_point c) = 2"
    by (simp add: accented_name_def scalar_of_unit_def is_high_surrogate_def
        is_low_surrogate_def utf8_of_code_point_def)
  from length_concat_take [OF this] show "k \<in> set (utf8_boundaries accented_name) \<Longrightarrow> even k"
    by (auto simp: utf8_boundaries_def)
qed

lemma accented_not_cut_at_boundary:
  assumes "take 32 (drop 4 img) = take 31 (TextEncoder_encode accented_name) @ [0]"
  shows "\<not> name_cut_at_boundary accented_name img"
proof
  let ?enc = "TextEncoder_encode accented_name"
  assume "name_cut_at_boundary accented_name img"
  then obtain k where k: "k < 32" "k \<in> set (utf8_boundaries accented_name)"
    "take (Suc k) (drop 4 img) = take k ?enc @ [0]"
    by (auto simp: name_cut_at_boundary_def list_ex_iff)
  let ?F = "take 32 (drop 4 img)"
  from k(2) have "even k" by (rule accented_boundaries_even)
  with k(1) have k31: "k < 31" by (cases "k = 31") auto
  have len: "length ?enc = 32" by (simp add: accented_name_utf8)
  have lk: "length (take k ?enc) = k" using k(1) len by simp
  have "(take k ?enc @ [0]) ! length (take k ?enc) = 0"
    by (rule nth_append_length)
  then have "take (Suc k) (drop 4 img) ! k = 0" unfolding lk k(3) [symmetric] .
  moreover have "take (Suc k) (drop 4 img) ! k = drop 4 img ! k" by (rule nth_take) simp
  moreover have "?F ! k = drop 4 img ! k" using k(1) by (rule nth_take)
  ultimately have z: "?F ! k = 0" by simp
  have "?F ! k = ?enc ! k"
    unfolding assms using k31 len by (simp add: nth_append)
  moreover have "?enc ! k \<in> set ?enc" using k(1) len by (intro nth_mem) simp
  moreover have "set ?enc = {0xC3, 0xA9}" by (auto simp: accented_name_utf8)
  ultimately have "?F ! k \<noteq> 0" by auto
  with z show False by contradiction
qed

text \<open>
  Claim C3 as it was stated fails: the encoding of sixteen two-byte characters has 32
  bytes, the name field receives 31 of them and the NUL, and the last byte written is the
  lead byte \<open>0xC3\<close> of the sixteenth character: no prefix that ends at a character
  boundary is what the field holds.
\<close>

theorem buildUserFlashImage_name_split_counterexample:
  "map_sum id (name_cut_at_boundary accented_name) (buildUserFlashImage [] accented_name 0x040) =
     Inr False
   \<and> length (TextEncoder_encode accented_name) = 32
   \<and> map_sum id (take 32 \<circ> drop 4) (buildUserFlashImage [] accented_name 0x040) =
     Inr [0xC3, 0xA9, 0xC3, 0xA9, 0xC3, 0xA9, 0xC3, 0xA9, 0xC3, 0xA9, 0xC3, 0xA9, 0xC3, 0xA9, 0xC3, 0xA9,
          0xC3, 0xA9, 0xC3, 0xA9, 0xC3, 0xA9, 0xC3, 0xA9, 0xC3, 0xA9, 0xC3, 0xA9, 0xC3, 0xA9, 0xC3, 0]"
proof -
  from buildUserFlashImage_name_field [of "[]" accented_name "0x040"] obtain img where
    img: "buildUserFlashImage [] accented_name 0x040 = Inr img" by auto
  with accented_name_field have "take 32 (drop 4 img) =
      take 31 (TextEncoder_encode accented_name) @ [0]"
    by (simp add: accented_name_utf8)
  then have "\<not> name_cut_at_boundary accented_name img" by (rule accented_not_cut_at_boundary)
  with img accented_name_field show ?thesis by (simp add: accented_name_utf8)
qed

text \<open>The empty script with the name of sixteen two-byte characters.\<close>

theorem buildUserFlashImage_name_bytes_witness:
  "\<exists>img. buildUserFlashImage [] accented_name 0x040 = Inr img \<and>
     take 32 (drop 4 img) =
       [0xC3, 0xA9, 0xC3, 0xA9, 0xC3, 0xA9, 0xC3, 0xA9, 0xC3, 0xA9, 0xC3, 0xA9, 0xC3, 0xA9, 0xC3, 0xA9,
        0xC3, 0xA9, 0xC3, 0xA9, 0xC3, 0xA9, 0xC3, 0xA9, 0xC3, 0xA9, 0xC3, 0xA9, 0xC3, 0xA9, 0xC3, 0]"
proof -
  have n: "Suc (min (length (TextEncoder_encode accented_name)) 31) = 32"
    by (simp add: accented_name_utf8)
  have t: "take 31 (TextEncoder_encode accented_name) @ [0] =
       [0xC3, 0xA9, 0xC3, 0xA9, 0xC3, 0xA9, 0xC3, 0xA9, 0xC3, 0xA9, 0xC3, 0xA9, 0xC3, 0xA9, 0xC3, 0xA9,
        0xC3, 0xA9, 0xC3, 0xA9, 0xC3, 0xA9, 0xC3, 0xA9, 0xC3, 0xA9, 0xC3, 0xA9, 0xC3, 0xA9, 0xC3, 0]"
    by (simp add: accented_name_utf8)
  from buildUserFlashImage_name_bytes [of "[]" accented_name "0x040"] obtain img where
    "buildUserFlashImage [] accented_name 0x040 = Inr img"
    "take (Suc (min (length (TextEncoder_encode accented_name)) 31)) (drop 4 img) =
       take 31 (TextEncoder_encode accented_name) @ [0]"
    by auto
  then show ?thesis unfolding n t by blast
qed



section \<open>The end-to-end scenario\<close>


lemma drop_renumbered: "length b = 512 \<Longrightarrow> drop 28 (renumbered i n b) = drop 28 b"
  by (simp add: renumbered_def overwrite_def)

lemma payload_renumbered:
  assumes "length b = 512"
  shows "take 256 (drop 32 (renumbered i n b)) = take 256 (drop 32 b)"
proof -
  have "drop 32 (renumbered i n b) = drop 4 (drop 28 (renumbered i n b))" by simp
  also have "\<dots> = drop 4 (drop 28 b)" by (simp only: drop_renumbered [OF assms])
  finally show ?thesis by simp
qed

lemma payload_of_chunk:
  "512 * k + 512 \<le> length bs \<Longrightarrow> take 256 (drop 32 (chunk bs k)) = take 256 (drop (512 * k + 32) bs)"
  by (simp add: chunk_def slice_def drop_take add.commute)

lemma script_block_payload:
  assumes "length img = 16384" "j < 64"
  shows "take 256 (drop 32 (script_block img j)) = take 256 (drop (256 * j) img)"
proof -
  have l: "length (slice img (j * 256) (j * 256 + 256)) = 256"
    using assms by (rule length_slice_256)
  from mk_block_payload [where data = "slice img (j * 256) (j * 256 + 256)"] l
  show ?thesis by (simp add: script_block_def slice_def mult.commute)
qed

lemma u32_at_renumbered_other:
  assumes "length b = 512" "off + 4 \<le> 512" "off + 4 \<le> 20 \<or> 28 \<le> off"
  shows "u32_at (renumbered i n b) off = u32_at b off"
  using assms by (auto simp: u32_at_def nth_renumbered)

lemma renumbered_ok:
  assumes "length b = 512"
  shows "bad_magic_at (renumbered i n b) 0 = bad_magic_at b 0"
    and "payload_overflow_at (renumbered i n b) 0 = payload_overflow_at b 0"
  using assms by (simp_all add: bad_magic_at_def payload_overflow_at_def u32_at_renumbered_other)

lemma parseUf2_serialized:
  assumes "\<forall>b \<in> set bl. length b = 512 \<and> \<not> bad_magic_at b 0 \<and> \<not> payload_overflow_at b 0"
  shows "parseUf2 (serialized bl) =
     Inr (map (\<lambda>k. decode_at (serialized bl) (512 * k)) [0..<length bl])"
proof -
  let ?xss = "map (\<lambda>j. renumbered j (length bl) (bl ! j)) [0..<length bl]"
  have "\<forall>x \<in> set ?xss. length x = 512 \<and> \<not> bad_magic_at x 0 \<and> \<not> payload_overflow_at x 0"
    using assms by (auto simp: renumbered_ok)
  from parseUf2_concat [OF this] show ?thesis by (simp add: serialized_def)
qed

lemma survivors_ok:
  assumes "parseUf2 base = Inr parsed"
  shows "\<forall>c \<in> set (survivors base).
     length c = 512 \<and> \<not> bad_magic_at c 0 \<and> \<not> payload_overflow_at c 0"
proof -
  from assms have m: "length base mod 512 = 0"
    and ok: "\<forall>k<length base div 512.
       \<not> bad_magic_at base (512 * k) \<and> \<not> payload_overflow_at base (512 * k)"
    by (simp_all add: parseUf2_Inr_iff)
  have "length (chunk base k) = 512 \<and> \<not> bad_magic_at (chunk base k) 0 \<and>
      \<not> payload_overflow_at (chunk base k) 0" if k: "k < length base div 512" for k
  proof -
    from k m have fit: "512 * k + 512 \<le> length base"
      by (auto simp: dvd_eq_mod_eq_0 [symmetric] elim!: dvdE)
    have "u32_at (chunk base k) j = u32_at base (512 * k + j)" if "j + 4 \<le> 512" for j
      using fit that by (rule u32_at_chunk)
    from this [of 0] this [of 4] this [of 508] this [of 16] ok k length_chunk [OF fit]
    show ?thesis by (simp add: bad_magic_at_def payload_overflow_at_def)
  qed
  then show ?thesis by (auto simp: survivors_def)
qed

lemma script_block_ok:
  assumes "length img = 16384" "j < 64"
  shows "\<not> bad_magic_at (script_block img j) 0" "\<not> payload_overflow_at (script_block img j) 0"
  using length_slice_256 [OF assms]
  by (simp_all add: script_block_def mk_block_ok)

lemma demo_image:
  "buildUserFlashImage (TextEncoder_encode demo_script) (deriveScriptName demo_script) 0x040 =
     Inr (region_layout 0x0011040A [0x64, 0x65, 0x6D, 0x6F] (TextEncoder_encode demo_script))"
proof -
  have l: "length (TextEncoder_encode demo_script) = 17" by (simp add: demo_script_utf8)
  then have "length (TextEncoder_encode demo_script) \<le> 16348" by simp
  from buildUserFlashImage_eq [OF this, of "deriveScriptName demo_script" "0x040"]
  show ?thesis
    by (simp add: l demo_status demo_script_name demo_name_utf8)
qed

lemma demo_transform:
  assumes "length base = 128 * 512"
    and "parseUf2 base = Inr parsed"
    and "\<forall>b \<in> set parsed. \<not> (0x101fc000 \<le> targetAddr b \<and> targetAddr b \<le> 0x101fffff)"
  shows "\<exists>img out.
     buildUserFlashImage (TextEncoder_encode demo_script) (deriveScriptName demo_script) 0x040 =
       Inr img \<and>
     injectScriptIntoBaseUf2 base demo_script = Inr out \<and>
     take 32 (drop 4 img) = [0x64, 0x65, 0x6D, 0x6F] @ [0] @ replicate 27 0xFF \<and>
     u32_at img 0 AND 0xF = 0xA \<and>
     length_field_at 0 img = 17 \<and>
     length out = 192 * 512 \<and>
     (\<exists>blocks. parseUf2 out = Inr blocks \<and> length blocks = 192 \<and>
        (\<forall>i<192. unat (blockNo (blocks ! i)) = i \<and> unat (numBlocks (blocks ! i)) = 192)) \<and>
     (\<forall>j<64. take 256 (drop (512 * (128 + j) + 32) out) = take 256 (drop (256 * j) img))"
proof -
  let ?img = "region_layout 0x0011040A [0x64, 0x65, 0x6D, 0x6F] (TextEncoder_encode demo_script)"
  have li: "length ?img = 16384"
    by (simp add: length_region_layout demo_script_utf8)
  let ?all = "survivors base @ map (script_block ?img) [0..<64]"
  from assms(1) have m: "length base mod 512 = 0" and n: "length base div 512 = 128" by simp_all
  from assms(2) have lp: "length parsed = 128" by (simp add: parseUf2_Inr_iff n)
  have "filter (\<lambda>i. \<not> inUserRange (targetAddr (parsed ! i))) [0..<length base div 512] =
      [0..<length base div 512]"
    using assms(3) lp n by (auto simp: filter_id_conv inUserRange_def)
  with survivors_by_index [OF assms(2)] have sv: "survivors base = map (chunk base) [0..<128]"
    by (simp add: n)
  then have ls: "length (survivors base) = 128" by simp
  have all: "\<forall>b \<in> set ?all. length b = 512"
    using survivors_512 [OF m] li by auto
  have la: "length ?all = 192" using ls by simp
  let ?out = "serialized ?all"
  have out: "injectScriptIntoBaseUf2 base demo_script = Inr ?out"
    using demo_image li assms(2) by (rule injectScriptIntoBaseUf2_eq)
  have lo: "length ?out = 192 * 512" using length_serialized [OF all] la by simp
  have name: "take 32 (drop 4 ?img) = [0x64, 0x65, 0x6D, 0x6F] @ [0] @ replicate 27 0xFF"
    using region_layout_name [of "[0x64, 0x65, 0x6D, 0x6F]"] by simp
  have st: "u32_at ?img 0 AND 0xF = 0xA" "length_field_at 0 ?img = 17"
    by (simp_all add: region_layout_status length_field_at_def)
  have num: "unat (u32_at ?out (512 * i + 20)) = i \<and> unat (u32_at ?out (512 * i + 24)) = 192"
    if i: "i < 192" for i
  proof -
    from i la have i': "i < length ?all" by simp
    with all have b: "length (?all ! i) = 512" by (metis nth_mem)
    have c: "chunk ?out i = renumbered i 192 (?all ! i)"
      using chunk_serialized [OF all i'] la by simp
    have fit: "512 * i + 512 \<le> length ?out" using i lo by simp
    have "u32_at ?out (512 * i + 20) = of_nat i" "u32_at ?out (512 * i + 24) = of_nat 192"
      using u32_at_chunk [OF fit, of 20] u32_at_chunk [OF fit, of 24] u32_at_renumbered [OF b, of i 192]
      unfolding c by simp_all
    moreover from i have "i < 2 ^ 32" by simp
    ultimately show ?thesis using unat_of_nat_small [of i] unat_of_nat_small [of 192] by simp
  qed
  have pl: "take 256 (drop (512 * (128 + j) + 32) ?out) = take 256 (drop (256 * j) ?img)"
    if j: "j < 64" for j
  proof -
    from j la have j': "128 + j < length ?all" by simp
    have e: "?all ! (128 + j) = script_block ?img j"
      using j ls by (simp add: nth_append)
    have b: "length (script_block ?img j) = 512" using li j by (rule script_block_length)
    have c: "chunk ?out (128 + j) = renumbered (128 + j) 192 (script_block ?img j)"
      using chunk_serialized [OF all j'] la e by simp
    have fit: "512 * (128 + j) + 512 \<le> length ?out" using j lo by simp
    show ?thesis
      using payload_of_chunk [OF fit] payload_renumbered [OF b] script_block_payload [OF li j]
      unfolding c by simp
  qed
  have ok: "\<forall>b \<in> set ?all.
      length b = 512 \<and> \<not> bad_magic_at b 0 \<and> \<not> payload_overflow_at b 0"
    using survivors_ok [OF assms(2)] li by (auto simp: script_block_ok)
  let ?blocks = "map (\<lambda>k. decode_at ?out (512 * k)) [0..<192]"
  have parse: "parseUf2 ?out = Inr ?blocks"
    using parseUf2_serialized [OF ok] la by simp
  have "unat (blockNo (?blocks ! i)) = i \<and> unat (numBlocks (?blocks ! i)) = 192"
    if "i < 192" for i
    using num [OF that] that by (simp add: decode_at_def)
  with parse have numbered: "\<exists>blocks. parseUf2 ?out = Inr blocks \<and> length blocks = 192 \<and>
      (\<forall>i<192. unat (blockNo (blocks ! i)) = i \<and> unat (numBlocks (blocks ! i)) = 192)"
    by (intro exI [of _ ?blocks]) simp
  from demo_image out name st lo numbered pl show ?thesis by blast
qed


text \<open>
  Claim C1, as amended. For every base container of 128 blocks that \<open>parseUf2\<close> accepts,
  none of them with a target address in \<open>0x101FC000 .. 0x101FFFFF\<close>, and the script
  \<open>---demo\<close>, line feed, \<open>print(1)\<close>, line feed, the transform succeeds. The region image
  it builds has the name field \<open>demo\<close>, one NUL and 27 bytes \<open>0xFF\<close>; its status word has
  the low nibble \<open>0xA\<close> and the length field 17, the number of bytes of the script. The
  output has 192 * 512 bytes and parses as a container of 192 blocks, numbered 0 to 191,
  each with the block count 192, and the payloads of the blocks 128 to 191 are the 64
  slices of the region image.
\<close>

theorem demo_end_to_end:
  assumes "length base = 128 * 512"
    and "parseUf2 base = Inr parsed"
    and "\<forall>b \<in> set parsed. \<not> (0x101fc000 \<le> targetAddr b \<and> targetAddr b \<le> 0x101fffff)"
  shows "\<exists>img out.
     buildUserFlashImage (TextEncoder_encode demo_script) (deriveScriptName demo_script) 0x040 =
       Inr img \<and>
     injectScriptIntoBaseUf2 base demo_script = Inr out \<and>
     take 32 (drop 4 img) = [0x64, 0x65, 0x6D, 0x6F] @ [0] @ replicate 27 0xFF \<and>
     u32_at img 0 AND 0xF = 0xA \<and>
     length_field_at 0 img = 17 \<and>
     length out = 192 * 512 \<and>
     (\<exists>blocks. parseUf2 out = Inr blocks \<and> length blocks = 192 \<and>
        (\<forall>i<192. unat (blockNo (blocks ! i)) = i \<and> unat (numBlocks (blocks ! i)) = 192)) \<and>
     (\<forall>j<64. take 256 (drop (512 * (128 + j) + 32) out) = take 256 (drop (256 * j) img))"
  using assms by (rule demo_transform)

lemma demo_base_facts:
  shows demo_base_length: "length demo_base = 128 * 512"
    and demo_base_parses: "\<exists>parsed. parseUf2 demo_base = Inr parsed \<and>
      (\<forall>b \<in> set parsed. \<not> (0x101fc000 \<le> targetAddr b \<and> targetAddr b \<le> 0x101fffff))"
proof -
  let ?xss = "map plain_block [0..<128]"
  have all: "\<forall>x \<in> set ?xss. length x = 512" by (simp add: plain_block_ok)
  have ok: "\<forall>x \<in> set ?xss. length x = 512 \<and> \<not> bad_magic_at x 0 \<and> \<not> payload_overflow_at x 0"
    by (simp add: plain_block_ok)
  show len: "length demo_base = 128 * 512"
    using length_concat_blocks [OF all] by (simp add: demo_base_def)
  let ?parsed = "map (\<lambda>k. decode_at demo_base (512 * k)) [0..<128]"
  have p: "parseUf2 demo_base = Inr ?parsed"
    using parseUf2_concat [OF ok] by (simp add: demo_base_def)
  have "\<not> (0x101fc000 \<le> targetAddr (decode_at demo_base (512 * k)) \<and>
            targetAddr (decode_at demo_base (512 * k)) \<le> 0x101fffff)" if k: "k < 128" for k
  proof -
    have fit: "512 * k + 512 \<le> length demo_base" using k len by simp
    have "chunk demo_base k = plain_block k"
      using chunk_concat_blocks [OF all, of k] k by (simp add: demo_base_def)
    with u32_at_chunk [OF fit, of 12]
    have "targetAddr (decode_at demo_base (512 * k)) = u32_at (plain_block k) 12"
      by (simp add: decode_at_def)
    with plain_block_outside [OF k] show ?thesis by simp
  qed
  then have "\<forall>b \<in> set ?parsed.
      \<not> (0x101fc000 \<le> targetAddr b \<and> targetAddr b \<le> 0x101fffff)"
    by auto
  with p show "\<exists>parsed. parseUf2 demo_base = Inr parsed \<and>
      (\<forall>b \<in> set parsed. \<not> (0x101fc000 \<le> targetAddr b \<and> targetAddr b \<le> 0x101fffff))"
    by blast
qed

text \<open>The base container of 128 blocks at \<open>0x10000000 + 256 * i\<close>.\<close>

theorem demo_end_to_end_witness:
  "\<exists>img out.
     buildUserFlashImage (TextEncoder_encode demo_script) (deriveScriptName demo_script) 0x040 =
       Inr img \<and>
     injectScriptIntoBaseUf2 demo_base demo_script = Inr out \<and>
     take 32 (drop 4 img) = [0x64, 0x65, 0x6D, 0x6F] @ [0] @ replicate 27 0xFF \<and>
     u32_at img 0 AND 0xF = 0xA \<and>
     length_field_at 0 img = 17 \<and>
     length out = 192 * 512 \<and>
     (\<exists>blocks. parseUf2 out = Inr blocks \<and> length blocks = 192 \<and>
        unat (blockNo (blocks ! 0)) = 0 \<and> unat (numBlocks (blocks ! 0)) = 192 \<and>
        unat (blockNo (blocks ! 191)) = 191 \<and> unat (numBlocks (blocks ! 191)) = 192)"
proof -
  from demo_base_parses obtain parsed where
    p: "parseUf2 demo_base = Inr parsed"
      "\<forall>b \<in> set parsed. \<not> (0x101fc000 \<le> targetAddr b \<and> targetAddr b \<le> 0x101fffff)"
    by blast
  from demo_end_to_end [OF demo_base_length p] obtain img out where
    r: "buildUserFlashImage (TextEncoder_encode demo_script) (deriveScriptName demo_script) 0x040 =
         Inr img"
      "injectScriptIntoBaseUf2 demo_base demo_script = Inr out"
      "take 32 (drop 4 img) = [0x64, 0x65, 0x6D, 0x6F] @ [0] @ replicate 27 0xFF"
      "u32_at img 0 AND 0xF = 0xA"
      "length_field_at 0 img = 17"
      "length out = 192 * 512"
      "\<exists>blocks. parseUf2 out = Inr blocks \<and> length blocks = 192 \<and>
        (\<forall>i<192. unat (blockNo (blocks ! i)) = i \<and> unat (numBlocks (blocks ! i)) = 192)"
    by blast
  from r(7) obtain blocks where
    b: "parseUf2 out = Inr blocks" "length blocks = 192"
      "\<forall>i<192. unat (blockNo (blocks ! i)) = i \<and> unat (numBlocks (blocks ! i)) = 192"
    by blast
  from b(3) [rule_format, of 0] b(3) [rule_format, of 191]
  have "unat (blockNo (blocks ! 0)) = 0 \<and> unat (numBlocks (blocks ! 0)) = 192"
    "unat (blockNo (blocks ! 191)) = 191 \<and> unat (numBlocks (blocks ! 191)) = 192"
    by simp_all
  with r(1-6) b(1,2) show ?thesis by blast
qed

lemma u32_at_window:
  "off + 4 \<le> length bs \<Longrightarrow> u32_at (take 256 (drop off bs)) 0 = u32_at bs off"
  by (simp add: u32_at_def)

text \<open>
  Claim C1 as it was stated fails in its length field: the script of the scenario has 17
  bytes, and 17, not 18, is what bits 16 to 31 of the status word hold, in the region
  image and in the payload of block 128 of the output.
\<close>

theorem demo_length_field_counterexample:
  "map_sum id (length_field_at 0)
     (buildUserFlashImage (TextEncoder_encode demo_script) (deriveScriptName demo_script) 0x040) =
     Inr 17
   \<and> map_sum id (length_field_at (512 * 128 + 32))
       (injectScriptIntoBaseUf2 demo_base demo_script) = Inr 17
   \<and> length (TextEncoder_encode demo_script) = 17
   \<and> (17 :: u32) \<noteq> 18"
proof -
  from demo_base_parses obtain parsed where
    p: "parseUf2 demo_base = Inr parsed"
      "\<forall>b \<in> set parsed. \<not> (0x101fc000 \<le> targetAddr b \<and> targetAddr b \<le> 0x101fffff)"
    by blast
  from demo_transform [OF demo_base_length p] obtain img out where
    r: "buildUserFlashImage (TextEncoder_encode demo_script) (deriveScriptName demo_script) 0x040 =
         Inr img"
      "injectScriptIntoBaseUf2 demo_base demo_script = Inr out"
      "length_field_at 0 img = 17"
      "length out = 192 * 512"
      "\<forall>j<64. take 256 (drop (512 * (128 + j) + 32) out) = take 256 (drop (256 * j) img)"
    by blast
  from r(1) demo_image have "length img = 16384"
    by (auto simp: length_region_layout demo_script_utf8)
  then have "u32_at (take 256 (drop 0 img)) 0 = u32_at img 0"
    by (intro u32_at_window) simp
  moreover from r(4) have "u32_at (take 256 (drop (512 * 128 + 32) out)) 0 = u32_at out (512 * 128 + 32)"
    by (intro u32_at_window) simp
  moreover from r(5) [rule_format, of 0]
  have "take 256 (drop (512 * 128 + 32) out) = take 256 (drop 0 img)" by simp
  ultimately have "u32_at out (512 * 128 + 32) = u32_at img 0" by simp
  with r(3) have "length_field_at (512 * 128 + 32) out = 17" by (simp add: length_field_at_def)
  with r(1,2,3) show ?thesis by (simp add: demo_script_utf8)
qed


end
